theory Spec2Isabelle
  imports Main "HOL-Library.Word"
begin

section \<open>Strings\<close>

text \<open>
  A JavaScript string is a sequence of UTF-16 code units. The model takes \<open>string\<close> as the
  strings whose code units are below 256, one \<open>char\<close> per code unit. On these,
  \<open>\w\<close> is \<open>[A-Za-z0-9_]\<close>, \<open>.\<close> excludes line feed and carriage return, and
  \<open>toLowerCase\<close> adds 32 to \<open>A\<close>..\<open>Z\<close> and to the Latin-1 capitals 192..222 except 215.
\<close>

definition isWordChar :: "char \<Rightarrow> bool" where
  "isWordChar c =
     (let n = (of_char c :: nat)
      in (48 \<le> n \<and> n \<le> 57) \<or> (65 \<le> n \<and> n \<le> 90) \<or> n = 95 \<or> (97 \<le> n \<and> n \<le> 122))"

definition isLineTerminator :: "char \<Rightarrow> bool" where
  "isLineTerminator c = (c = CHR 0x0A \<or> c = CHR 0x0D)"

definition toLowerChar :: "char \<Rightarrow> char" where
  "toLowerChar c =
     (let n = (of_char c :: nat)
      in if (65 \<le> n \<and> n \<le> 90) \<or> (192 \<le> n \<and> n \<le> 222 \<and> n \<noteq> 215)
         then char_of (n + 32) else c)"

definition toLowerCase :: "string \<Rightarrow> string" where
  "toLowerCase s = map toLowerChar s"

text \<open>\<open>Number.prototype.toString(36)\<close> on a non-negative integer.\<close>

definition digit36 :: "nat \<Rightarrow> char" where
  "digit36 d = ''0123456789abcdefghijklmnopqrstuvwxyz'' ! d"

fun toString36 :: "nat \<Rightarrow> string" where
  "toString36 n = (if n < 36 then [digit36 n] else toString36 (n div 36) @ [digit36 (n mod 36)])"

declare toString36.simps [simp del]

section \<open>Errors\<close>

text \<open>
  The codes the source passes to \<open>makeError\<close> and \<open>error\<close>, and \<open>MONGO_ERROR\<close> for what
  the MongoDB driver throws by itself (a duplicate \<open>_id\<close> on \<open>insertOne\<close>, a failed
  connection). An error is its code with its message.
\<close>

datatype code = URL_SYNTAX | DOMAIN | NOT_FOUND | BAD_MONGO_URL | BAD_SHORTENER_BASE
  | MONGO_ERROR

type_synonym err = "code \<times> string"

section \<open>splitUrl\<close>

record components =
  scheme :: string
  base :: string
  rest :: string

text \<open>
  One attempt of \<open>/(\w+):\/\/([^/]+)(.*)/\<close> at the start of the string. \<open>\w+\<close> has to take
  the whole run of word characters, since the next character must be a colon; \<open>[^/]+\<close>
  takes every character up to the next slash, and \<open>.*\<close> the rest of the line.
\<close>

definition matchAt :: "string \<Rightarrow> (string \<times> string \<times> string) option" where
  "matchAt s =
     (let w = takeWhile isWordChar s; r = dropWhile isWordChar s
      in if w = [] then None
         else if take 3 r \<noteq> ''://'' then None
         else let r' = drop 3 r; b = takeWhile (\<lambda>c. c \<noteq> CHR ''/'') r'
              in if b = [] then None
                 else Some (w, b, takeWhile (\<lambda>c. \<not> isLineTerminator c)
                                    (dropWhile (\<lambda>c. c \<noteq> CHR ''/'') r')))"

text \<open>\<open>url.match\<close> with a regular expression that is not anchored: the leftmost match.\<close>

fun regexMatch :: "string \<Rightarrow> (string \<times> string \<times> string) option" where
  "regexMatch [] = matchAt []"
| "regexMatch (c # cs) =
     (case matchAt (c # cs) of Some m \<Rightarrow> Some m | None \<Rightarrow> regexMatch cs)"

text \<open>\<open>/^https?$/i.test\<close>: the whole string is http or https, letters in either case.\<close>

definition httpsRegex :: "string \<Rightarrow> bool" where
  "httpsRegex s = (toLowerCase s = ''http'' \<or> toLowerCase s = ''https'')"

text \<open>
  \<open>isBaseError\<close> is \<open>isDomainError\<close> of the library \<open>lib544\<close>, which is not part of the
  repository: it is the parameter \<open>V\<close>, returning the error message or \<open>None\<close>.
\<close>

definition splitUrl ::
  "(string \<Rightarrow> string option) \<Rightarrow> (string \<Rightarrow> bool) option \<Rightarrow> string \<Rightarrow> err + components" where
  "splitUrl V schemeRegex url =
     (case regexMatch url of
        None \<Rightarrow> Inl (URL_SYNTAX, ''bad URL '' @ url)
      | Some (sch, b, r) \<Rightarrow>
          (case V b of
             Some e \<Rightarrow> Inl (URL_SYNTAX, e)
           | None \<Rightarrow>
               if (case schemeRegex of None \<Rightarrow> False | Some re \<Rightarrow> \<not> re sch)
               then Inl (URL_SYNTAX, ''invalid scheme '' @ [CHR 0x22] @ sch @ [CHR 0x22])
               else Inr \<lparr>scheme = toLowerCase sch, base = toLowerCase b, rest = r\<rparr>))"

section \<open>The store\<close>

text \<open>
  A collection is a map from \<open>_id\<close> to the document's other fields: \<open>infos\<close> from the short
  key to the mapping, \<open>urls\<close> from the long key to the short key. \<open>insertOne\<close> fails on
  an \<open>_id\<close> that is taken, \<open>updateOne\<close> changes the document of an \<open>_id\<close> if there is one.
  \<open>count\<close> is a JavaScript number, an IEEE double, which holds a non-negative integer:
  the service sets it to zero and then only adds one.
\<close>

record mapping_info =
  longUrl :: string
  shortUrl :: string
  count :: nat
  isActive :: bool

record store =
  infos :: "string \<rightharpoonup> mapping_info"
  urls :: "string \<rightharpoonup> string"

text \<open>
  \<open>info.count + 1\<close> on a double that holds the integer \<open>c\<close>. Below \<open>2^53\<close> the sum is
  exact. From \<open>2^53\<close> on the doubles are two or more apart and the sum is rounded to the
  nearest one: up to \<open>2^54\<close> it lies half way between \<open>c\<close> and \<open>c + 2\<close> and goes to the
  one with the even significand, beyond it goes back to \<open>c\<close>. So \<open>2^53 + 1\<close> is \<open>2^53\<close>.
\<close>

definition countLimit :: nat where
  "countLimit = 2 ^ 53"

definition jsAddOne :: "nat \<Rightarrow> nat" where
  "jsAddOne c =
     (if c < countLimit then c + 1
      else if c < 2 * countLimit \<and> odd (c div 2) then c + 2
      else c)"

definition insertOne :: "('k \<rightharpoonup> 'v) \<Rightarrow> 'k \<Rightarrow> 'v \<Rightarrow> err + ('k \<rightharpoonup> 'v)" where
  "insertOne coll k v =
     (if coll k \<noteq> None then Inl (MONGO_ERROR, ''E11000 duplicate key error'')
      else Inr (coll(k \<mapsto> v)))"

definition updateOne :: "('k \<rightharpoonup> 'v) \<Rightarrow> 'k \<Rightarrow> ('v \<Rightarrow> 'v) \<Rightarrow> ('k \<rightharpoonup> 'v)" where
  "updateOne coll k f = (case coll k of None \<Rightarrow> coll | Some d \<Rightarrow> coll(k \<mapsto> f d))"

definition clear :: "store \<Rightarrow> unit \<times> store" where
  "clear s = ((), \<lparr>infos = Map.empty, urls = Map.empty\<rparr>)"

section \<open>The shortener\<close>

text \<open>
  In what follows \<open>B\<close> is \<open>this.base\<close> and \<open>s\<close> the two collections. The source's
  \<open>info\<close>, the document found, is \<open>doc\<close>; its arguments \<open>longUrl\<close> and \<open>shortUrl\<close>
  are \<open>url\<close>, as the fields of the document have these names.
\<close>

definition lookupInfo :: "string \<Rightarrow> store \<Rightarrow> components \<Rightarrow> mapping_info option" where
  "lookupInfo B s c =
     (let key = base c @ rest c
      in if base c = B then infos s key
         else (case urls s key of None \<Rightarrow> None | Some shortKey \<Rightarrow> infos s shortKey))"

definition setActiveStatus :: "mapping_info \<Rightarrow> bool \<Rightarrow> store \<Rightarrow> store" where
  "setActiveStatus doc status s =
     s\<lparr>infos := updateOne (infos s) (shortUrl doc) (\<lambda>d. d\<lparr>isActive := status\<rparr>)\<rparr>"

text \<open>
  \<open>_shorten\<close> with the draw \<open>Math.floor(MAX_RAND * Math.random())\<close> as the argument \<open>r\<close>.
  Its own loop tests \<open>this.urls[shortKey]\<close>, a property of the collection object and not a
  document, which is undefined: the body runs once.
\<close>

definition shorten :: "string \<Rightarrow> 32 word \<Rightarrow> string" where
  "shorten B r = B @ ''/'' @ toString36 (unat r)"

text \<open>
  The loop of \<open>add\<close> that draws until the key is not in \<open>infos\<close>. The draws are the sequence
  \<open>rnd\<close> of the values that \<open>Math.random\<close> gives during the call, read from position \<open>n\<close>;
  the loop need not end, and then the value is \<open>None\<close>.
\<close>

partial_function (option) newShortKey ::
  "string \<Rightarrow> (string \<rightharpoonup> mapping_info) \<Rightarrow> (nat \<Rightarrow> 32 word) \<Rightarrow> nat \<Rightarrow> string option" where
  "newShortKey B coll rnd n =
     (if coll (shorten B (rnd n)) \<noteq> None then newShortKey B coll rnd (Suc n)
      else Some (shorten B (rnd n)))"

definition addResult :: "components \<Rightarrow> mapping_info \<Rightarrow> store \<Rightarrow> (err + string) \<times> store" where
  "addResult c doc s =
     (Inr (scheme c @ ''://'' @ shortUrl doc),
      if \<not> isActive doc then setActiveStatus doc True s else s)"

definition add ::
  "(string \<Rightarrow> string option) \<Rightarrow> string \<Rightarrow> (nat \<Rightarrow> 32 word) \<Rightarrow> string \<Rightarrow> store
     \<Rightarrow> ((err + string) \<times> store) option" where
  "add V B rnd url s =
     (case splitUrl V (Some httpsRegex) url of
        Inl e \<Rightarrow> Some (Inl e, s)
      | Inr c \<Rightarrow>
          if base c = B
          then Some (Inl (DOMAIN, ''url '' @ url @ '' has same base '' @ B @ '' as shortener''), s)
          else (case lookupInfo B s c of
                  Some doc \<Rightarrow> Some (addResult c doc s)
                | None \<Rightarrow>
                    (case newShortKey B (infos s) rnd 0 of
                       None \<Rightarrow> None
                     | Some shortKey \<Rightarrow>
                         let longKey = base c @ rest c;
                             doc = \<lparr>longUrl = longKey, shortUrl = shortKey,
                                     count = 0, isActive = True\<rparr>
                         in (case insertOne (infos s) shortKey doc of
                               Inl e \<Rightarrow> Some (Inl e, s)
                             | Inr infos' \<Rightarrow>
                                 (case insertOne (urls s) longKey shortKey of
                                    Inl e \<Rightarrow> Some (Inl e, s\<lparr>infos := infos'\<rparr>)
                                  | Inr urls' \<Rightarrow>
                                      Some (addResult c doc
                                              \<lparr>infos = infos', urls = urls'\<rparr>))))))"

text \<open>
  \<open>query\<close> in its two store accesses: the read, up to the test of the document found, and
  the write of the count that was read plus one.
\<close>

definition queryFind ::
  "(string \<Rightarrow> string option) \<Rightarrow> string \<Rightarrow> string \<Rightarrow> store \<Rightarrow> err + (components \<times> mapping_info)" where
  "queryFind V B url s =
     (case splitUrl V (Some httpsRegex) url of
        Inl e \<Rightarrow> Inl e
      | Inr c \<Rightarrow>
          if B \<noteq> base c
          then Inl (DOMAIN, ''url '' @ url @ '' differs from domain '' @ B)
          else (case lookupInfo B s c of
                  None \<Rightarrow> Inl (NOT_FOUND, url @ '' not found'')
                | Some doc \<Rightarrow>
                    if \<not> isActive doc then Inl (NOT_FOUND, url @ '' not found'')
                    else Inr (c, doc)))"

definition queryUpdate :: "components \<Rightarrow> mapping_info \<Rightarrow> store \<Rightarrow> string \<times> store" where
  "queryUpdate c doc s =
     (scheme c @ ''://'' @ longUrl doc,
      s\<lparr>infos := updateOne (infos s) (shortUrl doc) (\<lambda>d. d\<lparr>count := jsAddOne (count doc)\<rparr>)\<rparr>)"

definition query ::
  "(string \<Rightarrow> string option) \<Rightarrow> string \<Rightarrow> string \<Rightarrow> store \<Rightarrow> (err + string) \<times> store" where
  "query V B url s =
     (case queryFind V B url s of
        Inl e \<Rightarrow> (Inl e, s)
      | Inr (c, doc) \<Rightarrow> (case queryUpdate c doc s of (v, s') \<Rightarrow> (Inr v, s')))"

definition info ::
  "(string \<Rightarrow> string option) \<Rightarrow> string \<Rightarrow> string \<Rightarrow> store \<Rightarrow> (err + mapping_info) \<times> store" where
  "info V B url s =
     (case splitUrl V (Some httpsRegex) url of
        Inl e \<Rightarrow> (Inl e, s)
      | Inr c \<Rightarrow>
          (case lookupInfo B s c of
             None \<Rightarrow> (Inl (NOT_FOUND, url @ '' not found''), s)
           | Some i \<Rightarrow> (Inr i, s)))"

definition deactivate ::
  "(string \<Rightarrow> string option) \<Rightarrow> string \<Rightarrow> string \<Rightarrow> store \<Rightarrow> (err + unit) \<times> store" where
  "deactivate V B url s =
     (case splitUrl V (Some httpsRegex) url of
        Inl e \<Rightarrow> (Inl e, s)
      | Inr c \<Rightarrow>
          (case lookupInfo B s c of
             None \<Rightarrow> (Inl (NOT_FOUND, url @ '' not found''), s)
           | Some i \<Rightarrow> (Inr (), if isActive i then setActiveStatus i False s else s)))"

section \<open>The factory\<close>

text \<open>
  \<open>mongo.connect\<close> is the parameter \<open>connect\<close>, which gives a client or fails with a
  message. The handle holds what the constructor keeps: the base in lower case, the client
  and the name of the database.
\<close>

record 'c handle =
  hbase :: string
  client :: 'c
  db :: string

definition make ::
  "(string \<Rightarrow> string option) \<Rightarrow> (string \<Rightarrow> string + 'c) \<Rightarrow> string \<Rightarrow> string \<Rightarrow> err + 'c handle" where
  "make V connect mongoDbUrl shortenerBase =
     (case splitUrl V None mongoDbUrl of
        Inl e \<Rightarrow> Inl (BAD_MONGO_URL, snd e)
      | Inr c \<Rightarrow>
          if scheme c \<noteq> ''mongodb''
          then Inl (BAD_MONGO_URL, ''bad scheme '' @ [CHR 0x22] @ scheme c @ [CHR 0x22]
                                     @ ''; must be '' @ [CHR 0x22] @ ''mongodb'' @ [CHR 0x22])
          else (case V shortenerBase of
                  Some e \<Rightarrow> Inl (BAD_SHORTENER_BASE, e)
                | None \<Rightarrow>
                    (case connect mongoDbUrl of
                       Inl e \<Rightarrow> Inl (MONGO_ERROR, e)
                     | Inr cl \<Rightarrow>
                         Inr \<lparr>hbase = toLowerCase shortenerBase, client = cl,
                              db = drop 1 (rest c)\<rparr>)))"

section \<open>Runs of the service\<close>

text \<open>
  One call of a public operation on the collections, whatever it returns, and the stores a
  service can be in: empty at first, then changed by calls and by \<open>clear\<close>.
\<close>

inductive step :: "(string \<Rightarrow> string option) \<Rightarrow> string \<Rightarrow> store \<Rightarrow> store \<Rightarrow> bool"
  for V :: "string \<Rightarrow> string option" and B :: string where
  add: "add V B rnd url s = Some (r, s') \<Longrightarrow> step V B s s'"
| query: "query V B url s = (r, s') \<Longrightarrow> step V B s s'"
| info: "info V B url s = (r, s') \<Longrightarrow> step V B s s'"
| deactivate: "deactivate V B url s = (r, s') \<Longrightarrow> step V B s s'"

inductive reachable :: "(string \<Rightarrow> string option) \<Rightarrow> string \<Rightarrow> store \<Rightarrow> bool"
  for V :: "string \<Rightarrow> string option" and B :: string where
  init: "reachable V B \<lparr>infos = Map.empty, urls = Map.empty\<rparr>"
| step: "reachable V B s \<Longrightarrow> step V B s s' \<Longrightarrow> reachable V B s'"
| clear: "reachable V B s \<Longrightarrow> reachable V B (snd (clear s))"

text \<open>The store after \<open>n\<close> calls of \<open>query\<close> on the same argument, one after the other.\<close>

primrec queryTimes ::
  "(string \<Rightarrow> string option) \<Rightarrow> string \<Rightarrow> string \<Rightarrow> nat \<Rightarrow> store \<Rightarrow> store" where
  "queryTimes V B url 0 s = s"
| "queryTimes V B url (Suc n) s = queryTimes V B url n (snd (query V B url s))"

text \<open>
  What holds of the two collections in every store a service reaches: a mapping is filed
  under its own short key, which \<open>_shorten\<close> made, and indexed under its long key, and its
  count is at most \<open>2^53\<close>; an index entry points to the mapping of its long key.
\<close>

definition consistent :: "string \<Rightarrow> store \<Rightarrow> bool" where
  "consistent B s =
     ((\<forall>k d. infos s k = Some d \<longrightarrow>
          shortUrl d = k \<and> urls s (longUrl d) = Some k \<and> (\<exists>r. k = shorten B r) \<and>
          count d \<le> countLimit) \<and>
      (\<forall>l k. urls s l = Some k \<longrightarrow> (\<exists>d. infos s k = Some d \<and> longUrl d = l)))"

text \<open>
  What the short URLs of a service need to be read back by \<open>splitUrl\<close>: a base that is not
  empty, has no slash, passes \<open>isBaseError\<close> and is in lower case, as the constructor
  stores it.
\<close>

definition validBase :: "(string \<Rightarrow> string option) \<Rightarrow> string \<Rightarrow> bool" where
  "validBase V B = (B \<noteq> [] \<and> CHR ''/'' \<notin> set B \<and> V B = None \<and> toLowerCase B = B)"

section \<open>A concrete service\<close>

text \<open>
  A validator that rejects the authorities with a space, the base \<open>s.t\<close>, draws that are
  all 7, the empty store, the store after \<open>http://a.b/c\<close> was added with the draw 7, that
  store after the mapping was deactivated, the store with its count at \<open>2^53\<close>, the store
  after \<open>http://x.y/z\<close> was added to the empty one with the draw 7, and a connection that
  succeeds and one that fails.
\<close>

definition noSpace :: "string \<Rightarrow> string option" where
  "noSpace b = (if CHR '' '' \<in> set b then Some ''bad domain'' else None)"

definition store0 :: store where
  "store0 = \<lparr>infos = Map.empty, urls = Map.empty\<rparr>"

definition store1 :: store where
  "store1 = \<lparr>infos = [''s.t/7'' \<mapsto> \<lparr>longUrl = ''a.b/c'', shortUrl = ''s.t/7'', count = 0,
                                      isActive = True\<rparr>],
             urls = [''a.b/c'' \<mapsto> ''s.t/7'']\<rparr>"

definition store2 :: store where
  "store2 = \<lparr>infos = [''s.t/7'' \<mapsto> \<lparr>longUrl = ''a.b/c'', shortUrl = ''s.t/7'', count = 0,
                                      isActive = False\<rparr>],
             urls = [''a.b/c'' \<mapsto> ''s.t/7'']\<rparr>"

definition storeMax :: store where
  "storeMax = \<lparr>infos = [''s.t/7'' \<mapsto> \<lparr>longUrl = ''a.b/c'', shortUrl = ''s.t/7'',
                                        count = countLimit, isActive = True\<rparr>],
               urls = [''a.b/c'' \<mapsto> ''s.t/7'']\<rparr>"

definition store3 :: store where
  "store3 = \<lparr>infos = [''s.t/7'' \<mapsto> \<lparr>longUrl = ''x.y/z'', shortUrl = ''s.t/7'', count = 0,
                                      isActive = True\<rparr>],
             urls = [''x.y/z'' \<mapsto> ''s.t/7'']\<rparr>"

definition draw7 :: "nat \<Rightarrow> 32 word" where
  "draw7 n = 7"

definition connectOk :: "string \<Rightarrow> string + nat" where
  "connectOk url = Inr 5"

definition connectFails :: "string \<Rightarrow> string + nat" where
  "connectFails url = Inl ''Invalid connection string''"

section \<open>Tokens and the draw of a new key\<close>

lemma digit36_in: "d < 36 \<Longrightarrow> digit36 d \<in> set ''0123456789abcdefghijklmnopqrstuvwxyz''"
  unfolding digit36_def by (rule nth_mem) simp

lemma toString36_chars: "c \<in> set (toString36 n) \<Longrightarrow> c \<in> set ''0123456789abcdefghijklmnopqrstuvwxyz''"
proof (induction n rule: toString36.induct)
  case (1 n)
  show ?case
  proof (cases "n < 36")
    case True
    with "1.prems" digit36_in [of n] show ?thesis by (simp add: toString36.simps [of n])
  next
    case False
    with "1.prems" have "c \<in> set (toString36 (n div 36)) \<or> c = digit36 (n mod 36)"
      by (auto simp add: toString36.simps [of n])
    then show ?thesis
    proof
      assume "c \<in> set (toString36 (n div 36))"
      with False "1.IH" show ?thesis by blast
    next
      assume "c = digit36 (n mod 36)"
      then show ?thesis using digit36_in [of "n mod 36"] by simp
    qed
  qed
qed

lemma toString36_no_terminator: "c \<in> set (toString36 n) \<Longrightarrow> \<not> isLineTerminator c"
  by (drule toString36_chars) (auto simp: isLineTerminator_def)

lemma newShortKey_fresh:
  assumes "newShortKey B coll rnd n = Some k"
  shows "coll k = None \<and> (\<exists>r. k = shorten B r)"
  using assms
proof (induct B coll rnd n k rule: newShortKey.raw_induct)
  case (1 f B coll rnd n k)
  note facts = this
  show ?case
  proof (cases "coll (shorten B (rnd n))")
    case None
    with facts have "k = shorten B (rnd n)" by simp
    with None show ?thesis by auto
  next
    case (Some d)
    with facts have a: "f B coll rnd (Suc n) = Some k" by simp
    from Some facts have "newShortKey B coll rnd (Suc n) = Some k"
      by (subst (asm) newShortKey.simps) simp
    with a facts show ?thesis by blast
  qed
qed (rule assms)

lemma newShortKey_returns:
  "coll (shorten B (rnd (n + i))) = None \<Longrightarrow> \<exists>k. newShortKey B coll rnd n = Some k"
proof (induction i arbitrary: n)
  case 0
  then show ?case by (subst newShortKey.simps) simp
next
  case (Suc i)
  from Suc.prems have "coll (shorten B (rnd (Suc n + i))) = None" by simp
  from Suc.IH [OF this] obtain k where "newShortKey B coll rnd (Suc n) = Some k" ..
  then show ?case by (subst newShortKey.simps) simp
qed

section \<open>What splitUrl returns\<close>

lemma toLowerChar_word: "isWordChar (toLowerChar c) \<Longrightarrow> isWordChar c"
  by (auto simp: toLowerChar_def isWordChar_def Let_def split: if_splits)

lemma toLowerChar_idem: "toLowerChar (toLowerChar c) = toLowerChar c"
  by (auto simp: toLowerChar_def Let_def)

lemma toLowerCase_idem: "toLowerCase (toLowerCase s) = toLowerCase s"
  by (simp add: toLowerCase_def toLowerChar_idem)

lemma toLowerCase_https: "httpsRegex sch \<Longrightarrow> httpsRegex (toLowerCase sch)"
  by (auto simp: httpsRegex_def toLowerCase_def toLowerChar_def)

lemma httpsRegex_word:
  assumes "httpsRegex sch"
  shows "sch \<noteq> [] \<and> (\<forall>c\<in>set sch. isWordChar c)"
proof -
  from assms have m: "map toLowerChar sch = ''http'' \<or> map toLowerChar sch = ''https''"
    by (simp add: httpsRegex_def toLowerCase_def)
  then have "sch \<noteq> []" by auto
  moreover have "isWordChar c" if "c \<in> set sch" for c
  proof -
    from that have "toLowerChar c \<in> set (map toLowerChar sch)" by simp
    with m have "toLowerChar c \<in> set ''https''" by auto
    then have "isWordChar (toLowerChar c)" by (auto simp: isWordChar_def)
    then show ?thesis by (rule toLowerChar_word)
  qed
  ultimately show ?thesis by blast
qed

lemma matchAt_form:
  assumes "sch \<noteq> []" and "\<forall>c\<in>set sch. isWordChar c" and "b \<noteq> []" and "CHR ''/'' \<notin> set b"
    and "r = [] \<or> hd r = CHR ''/''"
  shows "matchAt (sch @ ''://'' @ b @ r)
         = Some (sch, b, takeWhile (\<lambda>c. \<not> isLineTerminator c) r)"
proof -
  have w: "takeWhile isWordChar (sch @ ''://'' @ b @ r) = sch"
    using assms(2) by (simp add: isWordChar_def)
  have d: "dropWhile isWordChar (sch @ ''://'' @ b @ r) = ''://'' @ b @ r"
    using assms(2) by (simp add: isWordChar_def)
  have nb: "\<And>x. x \<in> set b \<Longrightarrow> x \<noteq> CHR ''/''"
    using assms(4) by auto
  have tb: "takeWhile (\<lambda>c. c \<noteq> CHR ''/'') (b @ r) = b"
    using assms(5) by (cases r) (simp_all add: nb)
  have db: "dropWhile (\<lambda>c. c \<noteq> CHR ''/'') (b @ r) = r"
    using assms(5) by (cases r) (simp_all add: nb)
  show ?thesis
    unfolding matchAt_def w d using assms(1,3) by (simp add: tb db)
qed

lemma regexMatch_matchAt: "matchAt s = Some m \<Longrightarrow> regexMatch s = Some m"
  by (cases s) auto

lemma splitUrl_form:
  assumes "sch \<noteq> []" and "\<forall>c\<in>set sch. isWordChar c" and "b \<noteq> []" and "CHR ''/'' \<notin> set b"
    and "r = [] \<or> hd r = CHR ''/''" and "V b = None"
  shows "splitUrl V re (sch @ ''://'' @ b @ r) =
         (if (case re of None \<Rightarrow> False | Some p \<Rightarrow> \<not> p sch)
          then Inl (URL_SYNTAX, ''invalid scheme '' @ [CHR 0x22] @ sch @ [CHR 0x22])
          else Inr \<lparr>scheme = toLowerCase sch, base = toLowerCase b,
                    rest = takeWhile (\<lambda>c. \<not> isLineTerminator c) r\<rparr>)"
  using regexMatch_matchAt [OF matchAt_form [OF assms(1-5)]] assms(6)
  by (simp add: splitUrl_def)

lemma splitUrl_https:
  "splitUrl V (Some httpsRegex) u = Inr c \<Longrightarrow> scheme c = ''http'' \<or> scheme c = ''https''"
  by (auto simp: splitUrl_def httpsRegex_def split: option.splits if_splits prod.splits)

lemma splitUrl_scheme:
  "splitUrl V (Some httpsRegex) u = Inr c \<Longrightarrow> httpsRegex (scheme c) \<and> toLowerCase (scheme c) = scheme c"
  by (drule splitUrl_https) (auto simp: httpsRegex_def toLowerCase_def toLowerChar_def)

lemma splitUrl_short:
  assumes "validBase V B" and "httpsRegex sch"
  shows "splitUrl V (Some httpsRegex) (sch @ ''://'' @ shorten B r)
         = Inr \<lparr>scheme = toLowerCase sch, base = B, rest = ''/'' @ toString36 (unat r)\<rparr>"
proof -
  from assms(1) have b: "B \<noteq> []" "CHR ''/'' \<notin> set B" "V B = None" "toLowerCase B = B"
    by (simp_all add: validBase_def)
  from httpsRegex_word [OF assms(2)] have w: "sch \<noteq> []" "\<forall>c\<in>set sch. isWordChar c"
    by simp_all
  have t: "takeWhile (\<lambda>c. \<not> isLineTerminator c) (''/'' @ toString36 (unat r))
           = ''/'' @ toString36 (unat r)"
    by (auto simp: isLineTerminator_def dest: toString36_no_terminator)
  have "splitUrl V (Some httpsRegex) (sch @ ''://'' @ B @ (''/'' @ toString36 (unat r)))
        = Inr \<lparr>scheme = toLowerCase sch, base = toLowerCase B,
                rest = takeWhile (\<lambda>c. \<not> isLineTerminator c) (''/'' @ toString36 (unat r))\<rparr>"
    using assms(2)
    by (subst splitUrl_form [of sch B "''/'' @ toString36 (unat r)" V, OF w b(1,2) _ b(3)])
      simp_all
  with b(4) t show ?thesis by (simp add: shorten_def)
qed

section \<open>Adding one to a count\<close>

lemma jsAddOne_small: "c < countLimit \<Longrightarrow> jsAddOne c = c + 1"
  by (simp add: jsAddOne_def)

lemma jsAddOne_limit: "jsAddOne countLimit = countLimit"
  by (simp add: jsAddOne_def countLimit_def)

lemma jsAddOne_min: "c \<le> countLimit \<Longrightarrow> jsAddOne c = min (c + 1) countLimit"
proof (cases "c < countLimit")
  case True
  then show ?thesis by (simp add: jsAddOne_small)
next
  case False
  moreover assume "c \<le> countLimit"
  ultimately have "c = countLimit" by simp
  then show ?thesis by (simp add: jsAddOne_limit)
qed

lemma jsAddOne_bound: "c \<le> countLimit \<Longrightarrow> jsAddOne c \<le> countLimit"
  by (simp add: jsAddOne_min)

section \<open>The two collections stay consistent\<close>

lemma consistent_init: "consistent B \<lparr>infos = Map.empty, urls = Map.empty\<rparr>"
  by (simp add: consistent_def)

lemma consistent_count: "consistent B s \<Longrightarrow> infos s k = Some d \<Longrightarrow> count d \<le> countLimit"
  unfolding consistent_def by blast

lemma consistent_infos:
  "consistent B s \<Longrightarrow> infos s k = Some d \<Longrightarrow>
     shortUrl d = k \<and> urls s (longUrl d) = Some k \<and> (\<exists>r. k = shorten B r)"
  unfolding consistent_def by blast

lemma consistent_urls:
  "consistent B s \<Longrightarrow> urls s l = Some k \<Longrightarrow> \<exists>d. infos s k = Some d \<and> longUrl d = l"
  unfolding consistent_def by blast

lemma consistent_one_long:
  assumes "consistent B s" and "urls s l1 = Some k" and "urls s l2 = Some k"
  shows "l1 = l2"
  using consistent_urls [OF assms(1,2)] consistent_urls [OF assms(1,3)] by auto

lemma consistent_updateOne:
  assumes c: "consistent B s"
    and f: "\<And>d. longUrl (f d) = longUrl d \<and> shortUrl (f d) = shortUrl d"
    and g: "\<And>d. count d \<le> countLimit \<Longrightarrow> count (f d) \<le> countLimit"
  shows "consistent B (s\<lparr>infos := updateOne (infos s) k f\<rparr>)"
proof (cases "infos s k")
  case None
  with c show ?thesis by (simp add: updateOne_def)
next
  case (Some d0)
  let ?s = "s\<lparr>infos := (infos s)(k \<mapsto> f d0)\<rparr>"
  have a: "shortUrl d = k' \<and> urls ?s (longUrl d) = Some k' \<and> (\<exists>r. k' = shorten B r) \<and>
           count d \<le> countLimit"
    if "infos ?s k' = Some d" for k' d
  proof (cases "k' = k")
    case True
    with that have "d = f d0" by simp
    with consistent_infos [OF c Some] True f [of d0] g [OF consistent_count [OF c Some]]
    show ?thesis by simp
  next
    case False
    with that have "infos s k' = Some d" by simp
    from consistent_infos [OF c this] consistent_count [OF c this] show ?thesis by simp
  qed
  have b: "\<exists>d. infos ?s k' = Some d \<and> longUrl d = l" if "urls ?s l = Some k'" for l k'
  proof -
    from that have "urls s l = Some k'" by simp
    from consistent_urls [OF c this] obtain d where d: "infos s k' = Some d" "longUrl d = l"
      by blast
    show ?thesis
    proof (cases "k' = k")
      case True
      with d Some f [of d0] show ?thesis by simp
    next
      case False
      with d show ?thesis by simp
    qed
  qed
  from a b have "consistent B ?s" unfolding consistent_def by blast
  with Some show ?thesis by (simp add: updateOne_def)
qed

lemma consistent_setActiveStatus:
  "consistent B s \<Longrightarrow> consistent B (setActiveStatus d st s)"
  unfolding setActiveStatus_def by (rule consistent_updateOne) simp_all

lemma consistent_queryUpdate:
  "consistent B s \<Longrightarrow> count d \<le> countLimit \<Longrightarrow> consistent B (snd (queryUpdate c d s))"
  unfolding queryUpdate_def snd_conv
  by (rule consistent_updateOne) (simp_all add: jsAddOne_bound)

lemma lookupInfo_long:
  assumes "consistent B s" and "base c \<noteq> B"
  shows "lookupInfo B s c = Some d \<longleftrightarrow>
         urls s (base c @ rest c) = Some (shortUrl d) \<and> infos s (shortUrl d) = Some d"
proof
  assume "lookupInfo B s c = Some d"
  with assms(2) obtain k where k: "urls s (base c @ rest c) = Some k" "infos s k = Some d"
    by (auto simp: lookupInfo_def split: option.splits)
  with consistent_infos [OF assms(1) k(2)] show
    "urls s (base c @ rest c) = Some (shortUrl d) \<and> infos s (shortUrl d) = Some d" by simp
next
  assume "urls s (base c @ rest c) = Some (shortUrl d) \<and> infos s (shortUrl d) = Some d"
  with assms(2) show "lookupInfo B s c = Some d" by (simp add: lookupInfo_def)
qed

lemma lookupInfo_long_None:
  assumes "consistent B s" and "base c \<noteq> B"
  shows "lookupInfo B s c = None \<longleftrightarrow> urls s (base c @ rest c) = None"
  using assms(2) consistent_urls [OF assms(1), of "base c @ rest c"]
  by (auto simp: lookupInfo_def split: option.splits)

lemma lookupInfo_key:
  assumes "consistent B s" and "lookupInfo B s c = Some d"
  shows "infos s (shortUrl d) = Some d \<and> urls s (longUrl d) = Some (shortUrl d)"
proof -
  from assms(2) obtain k where "infos s k = Some d"
    by (auto simp: lookupInfo_def Let_def split: option.splits if_splits)
  with consistent_infos [OF assms(1) this] show ?thesis by simp
qed

lemma add_syntax:
  "splitUrl V (Some httpsRegex) u = Inl e \<Longrightarrow> add V B rnd u s = Some (Inl e, s)"
  by (simp add: add_def)

lemma add_found:
  assumes "splitUrl V (Some httpsRegex) u = Inr c" and "base c \<noteq> B"
    and "lookupInfo B s c = Some d"
  shows "add V B rnd u s = Some (addResult c d s)"
  using assms by (simp add: add_def)

lemma add_new:
  assumes "consistent B s" and "splitUrl V (Some httpsRegex) u = Inr c" and "base c \<noteq> B"
    and "lookupInfo B s c = None" and "newShortKey B (infos s) rnd 0 = Some k"
  shows "add V B rnd u s =
         Some (Inr (scheme c @ ''://'' @ k),
               \<lparr>infos = (infos s)(k \<mapsto> \<lparr>longUrl = base c @ rest c, shortUrl = k,
                                        count = 0, isActive = True\<rparr>),
                urls = (urls s)(base c @ rest c \<mapsto> k)\<rparr>)"
proof -
  from newShortKey_fresh [OF assms(5)] have f: "infos s k = None" by simp
  from assms(1,3,4) have l: "urls s (base c @ rest c) = None"
    by (simp add: lookupInfo_long_None)
  show ?thesis
    using assms(2-5) f l by (simp add: add_def insertOne_def addResult_def Let_def)
qed

lemma add_loops:
  assumes "splitUrl V (Some httpsRegex) u = Inr c" and "base c \<noteq> B"
    and "lookupInfo B s c = None" and "newShortKey B (infos s) rnd 0 = None"
  shows "add V B rnd u s = None"
  using assms by (simp add: add_def)

lemma consistent_new:
  assumes "consistent B s" and "infos s k = None" and "urls s l = None" and "k = shorten B r"
  shows "consistent B \<lparr>infos = (infos s)(k \<mapsto> \<lparr>longUrl = l, shortUrl = k,
                                        count = 0, isActive = True\<rparr>),
                urls = (urls s)(l \<mapsto> k)\<rparr>"
proof -
  let ?d = "\<lparr>longUrl = l, shortUrl = k, count = 0, isActive = True\<rparr>"
  let ?s = "\<lparr>infos = (infos s)(k \<mapsto> ?d), urls = (urls s)(l \<mapsto> k)\<rparr>"
  have a: "shortUrl d = k' \<and> urls ?s (longUrl d) = Some k' \<and> (\<exists>r. k' = shorten B r) \<and>
           count d \<le> countLimit"
    if "infos ?s k' = Some d" for k' d
  proof (cases "k' = k")
    case True
    with that assms(4) show ?thesis by auto
  next
    case False
    with that have i: "infos s k' = Some d" by simp
    from consistent_infos [OF assms(1) i] assms(3) have "longUrl d \<noteq> l" by auto
    with consistent_infos [OF assms(1) i] consistent_count [OF assms(1) i] show ?thesis by simp
  qed
  have b: "\<exists>d. infos ?s k' = Some d \<and> longUrl d = l'" if "urls ?s l' = Some k'" for l' k'
  proof (cases "l' = l")
    case True
    with that show ?thesis by simp
  next
    case False
    with that have u: "urls s l' = Some k'" by simp
    from consistent_urls [OF assms(1) u] assms(2) have "k' \<noteq> k" by auto
    with consistent_urls [OF assms(1) u] show ?thesis by simp
  qed
  from a b show ?thesis unfolding consistent_def by blast
qed

lemma consistent_add:
  assumes "consistent B s" and "add V B rnd u s = Some (r, s')"
  shows "consistent B s'"
proof (cases "splitUrl V (Some httpsRegex) u")
  case (Inl e)
  with assms show ?thesis by (simp add: add_def)
next
  case (Inr c)
  show ?thesis
  proof (cases "base c = B")
    case True
    with Inr assms show ?thesis by (simp add: add_def)
  next
    case False
    show ?thesis
    proof (cases "lookupInfo B s c")
      case (Some d)
      with Inr False assms have "s' = snd (addResult c d s)" by (simp add: add_found)
      with assms(1) show ?thesis by (simp add: addResult_def consistent_setActiveStatus)
    next
      case None
      show ?thesis
      proof (cases "newShortKey B (infos s) rnd 0")
        case None': None
        with Inr False None assms(2) show ?thesis by (simp add: add_loops)
      next
        case (Some k)
        from newShortKey_fresh [OF Some] obtain r' where
          f: "infos s k = None" and k: "k = shorten B r'" by blast
        from assms(1) False None have l: "urls s (base c @ rest c) = None"
          by (simp add: lookupInfo_long_None)
        from add_new [OF assms(1) Inr False None Some] assms(2)
        have "s' = \<lparr>infos = (infos s)(k \<mapsto> \<lparr>longUrl = base c @ rest c, shortUrl = k,
                                        count = 0, isActive = True\<rparr>),
                urls = (urls s)(base c @ rest c \<mapsto> k)\<rparr>" by simp
        with consistent_new [OF assms(1) f l k] show ?thesis by simp
      qed
    qed
  qed
qed

lemma consistent_query:
  assumes "consistent B s" and "query V B u s = (r, s')"
  shows "consistent B s'"
proof (cases "queryFind V B u s")
  case (Inl e)
  with assms show ?thesis by (simp add: query_def)
next
  case (Inr p)
  obtain c d where p: "p = (c, d)" by (cases p)
  with Inr assms(2) have s': "s' = snd (queryUpdate c d s)"
    by (auto simp: query_def split: prod.splits)
  from Inr p obtain k where "infos s k = Some d"
    by (auto simp: queryFind_def lookupInfo_def Let_def
        split: sum.splits if_splits option.splits)
  from consistent_count [OF assms(1) this] have "count d \<le> countLimit" .
  with assms(1) s' show ?thesis by (simp add: consistent_queryUpdate)
qed

lemma info_store: "info V B u s = (r, s') \<Longrightarrow> s' = s"
  by (auto simp: info_def split: sum.splits option.splits)

lemma consistent_deactivate:
  assumes "consistent B s" and "deactivate V B u s = (r, s')"
  shows "consistent B s'"
  using assms
  by (auto simp: deactivate_def consistent_setActiveStatus split: sum.splits option.splits if_splits)

lemma consistent_step: "step V B s s' \<Longrightarrow> consistent B s \<Longrightarrow> consistent B s'"
proof (induction rule: step.induct)
  case (add rnd url s r s')
  then show ?case by (blast intro: consistent_add)
next
  case (query url s r s')
  then show ?case by (blast intro: consistent_query)
next
  case (info url s r s')
  then show ?case by (auto dest: info_store)
next
  case (deactivate url s r s')
  then show ?case by (blast intro: consistent_deactivate)
qed

lemma reachable_consistent: "reachable V B s \<Longrightarrow> consistent B s"
proof (induction rule: reachable.induct)
  case init
  show ?case by (rule consistent_init)
next
  case (step s s')
  then show ?case by (blast intro: consistent_step)
next
  case (clear s)
  show ?case by (simp add: clear_def consistent_init)
qed

lemma reachable_steps: "rtranclp (step V B) s s' \<Longrightarrow> reachable V B s \<Longrightarrow> reachable V B s'"
  by (induction rule: rtranclp_induct) (auto intro: reachable.step)

text \<open>
  In every store the service reaches, \<open>clear\<close> included, the long index is one to one
  and agrees with the mappings.
\<close>

lemma reachable_one_to_one:
  assumes "reachable V B s"
  shows "(\<forall>l1 l2 k. urls s l1 = Some k \<and> urls s l2 = Some k \<longrightarrow> l1 = l2) \<and>
         (\<forall>l k. urls s l = Some k \<longrightarrow> (\<exists>d. infos s k = Some d \<and> shortUrl d = k \<and> longUrl d = l)) \<and>
         (\<forall>k d. infos s k = Some d \<longrightarrow> shortUrl d = k \<and> urls s (longUrl d) = Some k)"
proof -
  from assms have c: "consistent B s" by (rule reachable_consistent)
  have a: "\<forall>l1 l2 k. urls s l1 = Some k \<and> urls s l2 = Some k \<longrightarrow> l1 = l2"
    using consistent_one_long [OF c] by blast
  have b: "\<exists>d. infos s k = Some d \<and> shortUrl d = k \<and> longUrl d = l" if "urls s l = Some k" for l k
  proof -
    from consistent_urls [OF c that] obtain d where d: "infos s k = Some d" "longUrl d = l"
      by blast
    with consistent_infos [OF c d(1)] show ?thesis by simp
  qed
  have e: "shortUrl d = k \<and> urls s (longUrl d) = Some k" if "infos s k = Some d" for k d
    using consistent_infos [OF c that] by simp
  from a b e show ?thesis by blast
qed

section \<open>What add does\<close>

lemma lookupInfo_short:
  assumes "consistent B s" and "lookupInfo B s c = Some d"
  shows "infos s (shortUrl d) = Some d"
  using lookupInfo_key [OF assms] by simp

lemma lookupInfo_longUrl:
  assumes "consistent B s" and "base c \<noteq> B" and "lookupInfo B s c = Some d"
  shows "longUrl d = base c @ rest c"
proof -
  from assms have u: "urls s (base c @ rest c) = Some (shortUrl d)"
    and i: "infos s (shortUrl d) = Some d"
    by (simp_all add: lookupInfo_long)
  from consistent_urls [OF assms(1) u] i show ?thesis by auto
qed

lemma setActiveStatus_found:
  assumes "consistent B s" and "lookupInfo B s c = Some d"
  shows "setActiveStatus d st s = s\<lparr>infos := (infos s)(shortUrl d \<mapsto> d\<lparr>isActive := st\<rparr>)\<rparr>"
  using lookupInfo_short [OF assms] by (simp add: setActiveStatus_def updateOne_def)

lemma lookupInfo_replaced:
  assumes "consistent B s" and "lookupInfo B s c = Some d"
  shows "lookupInfo B (s\<lparr>infos := (infos s)(shortUrl d \<mapsto> d')\<rparr>) c = Some d'"
proof (cases "base c = B")
  case True
  with assms(2) have i: "infos s (base c @ rest c) = Some d" by (simp add: lookupInfo_def)
  from consistent_infos [OF assms(1) i] have "shortUrl d = base c @ rest c" by simp
  with True show ?thesis by (simp add: lookupInfo_def)
next
  case False
  with assms have "urls s (base c @ rest c) = Some (shortUrl d)" by (simp add: lookupInfo_long)
  with False show ?thesis by (simp add: lookupInfo_def)
qed

lemma add_active:
  assumes "splitUrl V (Some httpsRegex) u = Inr c" and "base c \<noteq> B"
    and "lookupInfo B s c = Some d" and "isActive d"
  shows "add V B rnd u s = Some (Inr (scheme c @ ''://'' @ shortUrl d), s)"
  using add_found [OF assms(1-3)] assms(4) by (simp add: addResult_def)

lemma add_inactive:
  assumes "consistent B s" and "splitUrl V (Some httpsRegex) u = Inr c" and "base c \<noteq> B"
    and "lookupInfo B s c = Some d" and "\<not> isActive d"
  shows "add V B rnd u s =
         Some (Inr (scheme c @ ''://'' @ shortUrl d),
               s\<lparr>infos := (infos s)(shortUrl d \<mapsto> d\<lparr>isActive := True\<rparr>)\<rparr>)"
  using add_found [OF assms(2-4)] assms(5) setActiveStatus_found [OF assms(1,4)]
  by (simp add: addResult_def)

text \<open>
  What a call of \<open>add\<close> that returns a value leaves behind: the mapping of the long URL is
  there and active, and the value is the scheme of the call before its short key.
\<close>

lemma add_value:
  assumes c: "consistent B s" and a: "add V B rnd u s = Some (Inr v, s1)"
    and sp: "splitUrl V (Some httpsRegex) u = Inr c"
  shows "base c \<noteq> B \<and> consistent B s1 \<and>
         (\<exists>d. lookupInfo B s1 c = Some d \<and> isActive d \<and> longUrl d = base c @ rest c \<and>
              v = scheme c @ ''://'' @ shortUrl d)"
proof -
  from a sp have nb: "base c \<noteq> B" by (auto simp: add_def split: if_splits)
  from c a have c1: "consistent B s1" by (rule consistent_add)
  have "\<exists>d. lookupInfo B s1 c = Some d \<and> isActive d \<and> longUrl d = base c @ rest c \<and>
              v = scheme c @ ''://'' @ shortUrl d"
  proof (cases "lookupInfo B s c")
    case (Some d)
    note l = lookupInfo_longUrl [OF c nb Some]
    show ?thesis
    proof (cases "isActive d")
      case True
      from add_active [OF sp nb Some True, of rnd] a Some True l show ?thesis by auto
    next
      case False
      from add_inactive [OF c sp nb Some False, of rnd] a
      have v: "v = scheme c @ ''://'' @ shortUrl d"
        and s1: "s1 = s\<lparr>infos := (infos s)(shortUrl d \<mapsto> d\<lparr>isActive := True\<rparr>)\<rparr>" by simp_all
      from lookupInfo_replaced [OF c Some, of "d\<lparr>isActive := True\<rparr>"] s1
      have "lookupInfo B s1 c = Some (d\<lparr>isActive := True\<rparr>)" by simp
      with v l show ?thesis by simp
    qed
  next
    case None
    show ?thesis
    proof (cases "newShortKey B (infos s) rnd 0")
      case None': None
      from add_loops [OF sp nb None None'] a show ?thesis by simp
    next
      case (Some k)
      from add_new [OF c sp nb None Some] a nb show ?thesis
        by (auto simp: lookupInfo_def)
    qed
  qed
  with nb c1 show ?thesis by blast
qed

text \<open>\<open>add\<close> returns when one of the draws is a key that is not taken.\<close>

lemma add_returns:
  assumes c: "consistent B s" and sp: "splitUrl V (Some httpsRegex) u = Inr c"
    and nb: "base c \<noteq> B" and fr: "\<exists>n. infos s (shorten B (rnd n)) = None"
  shows "\<exists>v s1. add V B rnd u s = Some (Inr v, s1)"
proof (cases "lookupInfo B s c")
  case (Some d)
  from add_found [OF sp nb Some, of rnd] show ?thesis by (simp add: addResult_def)
next
  case None
  from fr obtain n where "infos s (shorten B (rnd (0 + n))) = None" by auto
  from newShortKey_returns [of "infos s" B rnd 0 n, OF this]
  obtain k where "newShortKey B (infos s) rnd 0 = Some k" ..
  from add_new [OF c sp nb None this] show ?thesis by simp
qed

lemma add_indexed:
  assumes "consistent B s" and "add V B rnd u s = Some (Inr v, s1)"
    and "splitUrl V (Some httpsRegex) u = Inr c"
  shows "\<exists>k d. v = scheme c @ ''://'' @ k \<and> urls s1 (base c @ rest c) = Some k \<and>
               infos s1 k = Some d \<and> shortUrl d = k \<and> longUrl d = base c @ rest c"
proof -
  from add_value [OF assms] obtain d where c1: "consistent B s1"
    and l: "lookupInfo B s1 c = Some d" and lu: "longUrl d = base c @ rest c"
    and v: "v = scheme c @ ''://'' @ shortUrl d" by blast
  from lookupInfo_key [OF c1 l] lu v show ?thesis by auto
qed

lemma addResult_urls: "urls (snd (addResult c d s)) = urls s"
  by (simp add: addResult_def setActiveStatus_def)

lemma add_urls_kept:
  assumes "add V B rnd u s = Some (r, s')" and "urls s l = Some k"
  shows "urls s' l = Some k"
proof (cases "splitUrl V (Some httpsRegex) u")
  case (Inl e)
  with assms show ?thesis by (simp add: add_def)
next
  case (Inr c)
  show ?thesis
  proof (cases "base c = B")
    case True
    with Inr assms show ?thesis by (simp add: add_def)
  next
    case False
    show ?thesis
    proof (cases "lookupInfo B s c")
      case (Some d)
      with Inr False assms(1) have "s' = snd (addResult c d s)" by (simp add: add_found)
      with assms(2) show ?thesis by (simp add: addResult_urls)
    next
      case None
      show ?thesis
      proof (cases "newShortKey B (infos s) rnd 0")
        case None': None
        with Inr False None assms(1) show ?thesis by (simp add: add_loops)
      next
        case (Some key)
        from newShortKey_fresh [OF Some] have f: "infos s key = None" by simp
        show ?thesis
        proof (cases "urls s (base c @ rest c)")
          case None'': None
          with Inr False None Some f assms(1)
          have "urls s' = (urls s)(base c @ rest c \<mapsto> key)"
            by (auto simp: add_def insertOne_def addResult_def Let_def)
          with None'' assms(2) show ?thesis by auto
        next
          case (Some k')
          with Inr False None \<open>newShortKey B (infos s) rnd 0 = Some key\<close> f assms(1)
          have "urls s' = urls s"
            by (auto simp: add_def insertOne_def Let_def)
          with assms(2) show ?thesis by simp
        qed
      qed
    qed
  qed
qed

lemma updateOne_count_kept:
  assumes "\<And>d. count (f d) = count d" and "coll k = Some d"
  shows "\<exists>d'. updateOne coll k' f k = Some d' \<and> count d' = count d"
  using assms by (cases "k = k'") (auto simp: updateOne_def split: option.splits)

lemma setActiveStatus_count_kept:
  assumes "infos s k = Some d"
  shows "\<exists>d'. infos (setActiveStatus x st s) k = Some d' \<and> count d' = count d"
  unfolding setActiveStatus_def
  using updateOne_count_kept [of "\<lambda>d. d\<lparr>isActive := st\<rparr>" "infos s" k d "shortUrl x"] assms
  by simp

lemma add_count_kept:
  assumes "add V B rnd u s = Some (r, s')" and "infos s k = Some d"
  shows "\<exists>d'. infos s' k = Some d' \<and> count d' = count d"
proof (cases "splitUrl V (Some httpsRegex) u")
  case (Inl e)
  with assms show ?thesis by (simp add: add_def)
next
  case (Inr c)
  show ?thesis
  proof (cases "base c = B")
    case True
    with Inr assms show ?thesis by (simp add: add_def)
  next
    case False
    show ?thesis
    proof (cases "lookupInfo B s c")
      case (Some x)
      with Inr False assms(1) have "s' = (if \<not> isActive x then setActiveStatus x True s else s)"
        by (simp add: add_found addResult_def)
      with assms(2) setActiveStatus_count_kept [OF assms(2), of x True] show ?thesis
        by (cases "isActive x") simp_all
    next
      case None
      show ?thesis
      proof (cases "newShortKey B (infos s) rnd 0")
        case None': None
        with Inr False None assms(1) show ?thesis by (simp add: add_loops)
      next
        case (Some key)
        from newShortKey_fresh [OF Some] have f: "infos s key = None" by simp
        with assms(2) have ne: "k \<noteq> key" by auto
        have "infos s' = infos s \<or> infos s' = (infos s)(key \<mapsto>
            \<lparr>longUrl = base c @ rest c, shortUrl = key, count = 0, isActive = True\<rparr>)"
        proof (cases "urls s (base c @ rest c)")
          case None'': None
          with Inr False None Some f assms(1) show ?thesis
            by (auto simp: add_def insertOne_def addResult_def Let_def)
        next
          case (Some k')
          with Inr False None \<open>newShortKey B (infos s) rnd 0 = Some key\<close> f assms(1)
          show ?thesis by (auto simp: add_def insertOne_def Let_def)
        qed
        with ne assms(2) show ?thesis by auto
      qed
    qed
  qed
qed

section \<open>What query, info and deactivate do\<close>

lemma queryFind_short:
  assumes "validBase V B" and "httpsRegex sch"
  shows "queryFind V B (sch @ ''://'' @ shorten B r) s =
         (case infos s (shorten B r) of
            None \<Rightarrow> Inl (NOT_FOUND, sch @ ''://'' @ shorten B r @ '' not found'')
          | Some d \<Rightarrow>
              if \<not> isActive d then Inl (NOT_FOUND, sch @ ''://'' @ shorten B r @ '' not found'')
              else Inr (\<lparr>scheme = toLowerCase sch, base = B,
                          rest = ''/'' @ toString36 (unat r)\<rparr>, d))"
  unfolding queryFind_def splitUrl_short [OF assms]
  by (simp add: lookupInfo_def shorten_def split: option.splits)

lemma query_short:
  assumes "validBase V B" and "httpsRegex sch" and "consistent B s"
    and "infos s k = Some d" and "isActive d"
  shows "query V B (sch @ ''://'' @ k) s =
         (Inr (toLowerCase sch @ ''://'' @ longUrl d),
          s\<lparr>infos := (infos s)(k \<mapsto> d\<lparr>count := jsAddOne (count d)\<rparr>)\<rparr>)"
proof -
  from consistent_infos [OF assms(3,4)] obtain r where k: "k = shorten B r"
    and sk: "shortUrl d = k" by blast
  have "queryFind V B (sch @ ''://'' @ k) s
      = Inr (\<lparr>scheme = toLowerCase sch, base = B, rest = ''/'' @ toString36 (unat r)\<rparr>, d)"
    unfolding k queryFind_short [OF assms(1,2)] using assms(4,5) k by simp
  then show ?thesis
    unfolding query_def using assms(4) sk by (simp add: queryUpdate_def updateOne_def)
qed

text \<open>
  The round trip on the components of the URL: the value of \<open>add\<close>, given to \<open>query\<close>,
  comes back as the scheme, the base and the rest that \<open>splitUrl\<close> read.
\<close>

lemma components_round_trip:
  assumes c: "consistent B s" and vb: "validBase V B"
    and sp: "splitUrl V (Some httpsRegex) u = Inr c"
    and a: "add V B rnd u s = Some (Inr v, s1)"
  shows "\<exists>s2. query V B v s1 = (Inr (scheme c @ ''://'' @ base c @ rest c), s2)"
proof -
  from add_value [OF c a sp] obtain d where nb: "base c \<noteq> B" and c1: "consistent B s1"
    and l: "lookupInfo B s1 c = Some d" and act: "isActive d"
    and lu: "longUrl d = base c @ rest c" and v: "v = scheme c @ ''://'' @ shortUrl d"
    by blast
  from lookupInfo_short [OF c1 l] have i: "infos s1 (shortUrl d) = Some d" .
  from splitUrl_scheme [OF sp] have h: "httpsRegex (scheme c)"
    and lo: "toLowerCase (scheme c) = scheme c" by simp_all
  from query_short [OF vb h c1 i act] v lu lo show ?thesis by simp
qed

lemma query_found:
  assumes "splitUrl V (Some httpsRegex) u = Inr c" and "base c = B"
    and "infos s (base c @ rest c) = Some d" and "isActive d"
    and "shortUrl d = base c @ rest c"
  shows "query V B u s =
         (Inr (scheme c @ ''://'' @ longUrl d),
          s\<lparr>infos := (infos s)(base c @ rest c \<mapsto> d\<lparr>count := jsAddOne (count d)\<rparr>)\<rparr>)"
  using assms
  by (simp add: query_def queryFind_def queryUpdate_def updateOne_def lookupInfo_def)

lemma query_success:
  assumes "consistent B s" and "query V B u s = (Inr v, s1)"
  shows "\<exists>c d. splitUrl V (Some httpsRegex) u = Inr c \<and> base c = B \<and>
               infos s (base c @ rest c) = Some d \<and> isActive d \<and>
               shortUrl d = base c @ rest c"
proof (cases "splitUrl V (Some httpsRegex) u")
  case (Inl e)
  with assms(2) show ?thesis by (simp add: query_def queryFind_def)
next
  case (Inr c)
  show ?thesis
  proof (cases "base c = B")
    case False
    with Inr assms(2) show ?thesis by (auto simp: query_def queryFind_def)
  next
    case True
    show ?thesis
    proof (cases "infos s (base c @ rest c)")
      case None
      with Inr True assms(2) show ?thesis
        by (simp add: query_def queryFind_def lookupInfo_def)
    next
      case (Some d)
      from consistent_infos [OF assms(1) Some] have k: "shortUrl d = base c @ rest c" by simp
      have "isActive d"
      proof (rule ccontr)
        assume "\<not> isActive d"
        with Inr True Some assms(2) show False
          by (simp add: query_def queryFind_def lookupInfo_def)
      qed
      with Inr True Some k show ?thesis by simp
    qed
  qed
qed

lemma min_step: "min (min (a + 1) m + n) m = min (a + Suc n) (m::nat)"
  by arith

lemma queryTimes_found:
  assumes "splitUrl V (Some httpsRegex) u = Inr c" and "base c = B"
  shows "infos s (base c @ rest c) = Some d \<Longrightarrow> isActive d \<Longrightarrow>
         shortUrl d = base c @ rest c \<Longrightarrow> count d \<le> countLimit \<Longrightarrow>
         queryTimes V B u n s
         = s\<lparr>infos := (infos s)(base c @ rest c \<mapsto> d\<lparr>count := min (count d + n) countLimit\<rparr>)\<rparr>"
proof (induction n arbitrary: s d)
  case 0
  then have "d\<lparr>count := min (count d + 0) countLimit\<rparr> = d" by (simp add: min_def)
  with "0.prems"(1)
  have "(infos s)(base c @ rest c \<mapsto> d\<lparr>count := min (count d + 0) countLimit\<rparr>) = infos s"
    by (simp only: map_upd_triv)
  then show ?case by (simp only: queryTimes.simps) simp
next
  case (Suc n)
  let ?k = "base c @ rest c"
  let ?d = "d\<lparr>count := jsAddOne (count d)\<rparr>"
  let ?s = "s\<lparr>infos := (infos s)(?k \<mapsto> ?d)\<rparr>"
  from Suc.prems(4) have j: "jsAddOne (count d) = min (count d + 1) countLimit"
    by (rule jsAddOne_min)
  then have b: "count ?d \<le> countLimit" by simp
  from query_found [OF assms Suc.prems(1-3)] have "snd (query V B u s) = ?s" by simp
  then have "queryTimes V B u (Suc n) s = queryTimes V B u n ?s" by simp
  also have "\<dots> = ?s\<lparr>infos := (infos ?s)(?k \<mapsto> ?d\<lparr>count := min (count ?d + n) countLimit\<rparr>)\<rparr>"
    using Suc.prems(2,3) b by (intro Suc.IH) simp_all
  also have "\<dots> = s\<lparr>infos := (infos s)(?k \<mapsto> d\<lparr>count := min (count d + Suc n) countLimit\<rparr>)\<rparr>"
    using min_step [of "count d" countLimit n] by (simp add: j)
  finally show ?case .
qed

lemma queryTimes_twice:
  "queryTimes V B u 2 s = snd (query V B u (snd (query V B u s)))"
  by (simp add: numeral_2_eq_2)

lemma reachable_queryTimes: "reachable V B s \<Longrightarrow> reachable V B (queryTimes V B u n s)"
proof (induction n arbitrary: s)
  case 0
  then show ?case by simp
next
  case (Suc n)
  have "step V B s (snd (query V B u s))"
    by (rule step.query [of V B u s "fst (query V B u s)"]) simp
  with Suc.prems have "reachable V B (snd (query V B u s))" by (rule reachable.step)
  from Suc.IH [OF this] show ?case by simp
qed

lemma query_urls:
  assumes "query V B u s = (r, s')"
  shows "urls s' = urls s"
proof (cases "queryFind V B u s")
  case (Inl e)
  with assms show ?thesis by (simp add: query_def)
next
  case (Inr p)
  obtain c d where "p = (c, d)" by (cases p)
  with Inr assms show ?thesis by (auto simp: query_def queryUpdate_def)
qed

lemma info_found:
  assumes "splitUrl V (Some httpsRegex) u = Inr c"
  shows "info V B u s = (case lookupInfo B s c of
                           None \<Rightarrow> (Inl (NOT_FOUND, u @ '' not found''), s)
                         | Some d \<Rightarrow> (Inr d, s))"
  using assms by (simp add: info_def)

lemma deactivate_found:
  assumes "consistent B s" and "deactivate V B u s = (Inr x, s1)"
  shows "\<exists>c d. splitUrl V (Some httpsRegex) u = Inr c \<and> lookupInfo B s c = Some d \<and>
               s1 = s\<lparr>infos := (infos s)(shortUrl d \<mapsto> d\<lparr>isActive := False\<rparr>)\<rparr>"
proof (cases "splitUrl V (Some httpsRegex) u")
  case (Inl e)
  with assms(2) show ?thesis by (simp add: deactivate_def)
next
  case (Inr c)
  show ?thesis
  proof (cases "lookupInfo B s c")
    case None
    with Inr assms(2) show ?thesis by (simp add: deactivate_def)
  next
    case (Some d)
    from lookupInfo_short [OF assms(1) Some] have i: "infos s (shortUrl d) = Some d" .
    have "s1 = s\<lparr>infos := (infos s)(shortUrl d \<mapsto> d\<lparr>isActive := False\<rparr>)\<rparr>"
    proof (cases "isActive d")
      case True
      with Inr Some assms(2) setActiveStatus_found [OF assms(1) Some, of False]
      show ?thesis by (simp add: deactivate_def)
    next
      case False
      then have "d\<lparr>isActive := False\<rparr> = d" by simp
      with i have "(infos s)(shortUrl d \<mapsto> d\<lparr>isActive := False\<rparr>) = infos s"
        by (simp add: map_upd_triv)
      with False Inr Some assms(2) show ?thesis by (simp add: deactivate_def)
    qed
    with Inr Some show ?thesis by simp
  qed
qed

lemma deactivate_urls: "deactivate V B u s = (r, s') \<Longrightarrow> urls s' = urls s"
  by (auto simp: deactivate_def setActiveStatus_def split: sum.splits option.splits if_splits)

lemma deactivate_count_kept:
  assumes "deactivate V B u s = (r, s')" and "infos s k = Some d"
  shows "\<exists>d'. infos s' k = Some d' \<and> count d' = count d"
proof (cases "splitUrl V (Some httpsRegex) u")
  case (Inl e)
  with assms show ?thesis by (simp add: deactivate_def)
next
  case (Inr c)
  show ?thesis
  proof (cases "lookupInfo B s c")
    case None
    with Inr assms show ?thesis by (simp add: deactivate_def)
  next
    case (Some x)
    with Inr assms(1) have "s' = (if isActive x then setActiveStatus x False s else s)"
      by (simp add: deactivate_def)
    with assms(2) setActiveStatus_count_kept [OF assms(2), of x False] show ?thesis
      by (cases "isActive x") simp_all
  qed
qed

lemma step_urls_kept: "step V B s s' \<Longrightarrow> urls s l = Some k \<Longrightarrow> urls s' l = Some k"
  by (induction rule: step.induct)
    (auto dest: add_urls_kept query_urls deactivate_urls info_store)

lemma steps_urls_kept:
  "rtranclp (step V B) s s' \<Longrightarrow> urls s l = Some k \<Longrightarrow> urls s' l = Some k"
  by (induction rule: rtranclp_induct) (auto dest: step_urls_kept)

section \<open>What make returns\<close>

lemma make_base_lower:
  "make V connect url sb = Inr h \<Longrightarrow> toLowerCase (hbase h) = hbase h"
  by (auto simp: make_def toLowerCase_idem split: sum.splits option.splits if_splits)

section \<open>Evaluation on the concrete service\<close>

lemmas evals = splitUrl_def matchAt_def isWordChar_def isLineTerminator_def noSpace_def
  httpsRegex_def toLowerCase_def toLowerChar_def char_of_eq_iff Let_def lookupInfo_def
  store0_def store1_def store2_def store3_def draw7_def jsAddOne_def countLimit_def
  newShortKey.simps shorten_def toString36.simps digit36_def
  insertOne_def updateOne_def addResult_def setActiveStatus_def

lemma split_abc:
  "splitUrl noSpace (Some httpsRegex) ''http://a.b/c''
   = Inr \<lparr>scheme = ''http'', base = ''a.b'', rest = ''/c''\<rparr>"
  by (simp add: evals)

lemma split_abd:
  "splitUrl noSpace (Some httpsRegex) ''https://a.b/d''
   = Inr \<lparr>scheme = ''https'', base = ''a.b'', rest = ''/d''\<rparr>"
  by (simp add: evals)

lemma add_abc:
  "add noSpace ''s.t'' (\<lambda>n. 7) ''http://a.b/c'' store0 = Some (Inr ''http://s.t/7'', store1)"
  by (simp add: add_def evals)

lemma add_abd:
  "add noSpace ''s.t'' (\<lambda>n. if n = 0 then 7 else 8) ''https://a.b/d'' store1 =
     Some (Inr ''https://s.t/8'',
           \<lparr>infos = [''s.t/7'' \<mapsto> \<lparr>longUrl = ''a.b/c'', shortUrl = ''s.t/7'', count = 0,
                                    isActive = True\<rparr>,
                     ''s.t/8'' \<mapsto> \<lparr>longUrl = ''a.b/d'', shortUrl = ''s.t/8'', count = 0,
                                    isActive = True\<rparr>],
            urls = [''a.b/c'' \<mapsto> ''s.t/7'', ''a.b/d'' \<mapsto> ''s.t/8'']\<rparr>)"
  by (simp add: add_def evals)

lemma deactivate_abc:
  "deactivate noSpace ''s.t'' ''http://a.b/c'' store1 = (Inr (), store2)"
  by (simp add: deactivate_def evals)

lemma info_abc2:
  "info noSpace ''s.t'' ''http://a.b/c'' store2 =
     (Inr \<lparr>longUrl = ''a.b/c'', shortUrl = ''s.t/7'', count = 0, isActive = False\<rparr>, store2)"
  by (simp add: info_def evals)

lemma query_st7:
  "query noSpace ''s.t'' ''http://s.t/7'' store1 =
     (Inr ''http://a.b/c'',
      \<lparr>infos = [''s.t/7'' \<mapsto> \<lparr>longUrl = ''a.b/c'', shortUrl = ''s.t/7'', count = 1,
                               isActive = True\<rparr>],
       urls = [''a.b/c'' \<mapsto> ''s.t/7'']\<rparr>)"
  by (simp add: query_def queryFind_def queryUpdate_def evals)

lemma split_st7:
  "splitUrl noSpace (Some httpsRegex) ''http://s.t/7''
   = Inr \<lparr>scheme = ''http'', base = ''s.t'', rest = ''/7''\<rparr>"
  by (simp add: evals)

lemma info_git_https:
  "info noSpace ''s.t'' ''git+https://a.b/c'' store1 =
     (Inr \<lparr>longUrl = ''a.b/c'', shortUrl = ''s.t/7'', count = 0, isActive = True\<rparr>, store1)"
  by (simp add: info_def evals)

lemma reachable_store0: "reachable noSpace ''s.t'' store0"
  unfolding store0_def by (rule reachable.init)

lemma reachable_store1: "reachable noSpace ''s.t'' store1"
  by (rule reachable.step [OF reachable_store0 step.add [OF add_abc]])

lemma reachable_store2: "reachable noSpace ''s.t'' store2"
  by (rule reachable.step [OF reachable_store1 step.deactivate [OF deactivate_abc]])

lemma validBase_st: "validBase noSpace ''s.t''"
  by (simp add: validBase_def evals)

section \<open>The properties\<close>

text \<open>
  C1. Let \<open>u\<close> be a URL that \<open>splitUrl\<close> accepts with an http or https scheme and whose
  base is not the base of the service, in a store the service has reached. Then \<open>add u\<close>
  returns a value (provided one of its draws is a key that is not taken, without which the
  loop of the source does not end), and a second \<open>add u\<close>, whatever it draws, returns the
  same value and leaves the whole store as it was: every mapping, with its count.
\<close>

theorem add_idempotent:
  assumes "reachable V B s" and "splitUrl V (Some httpsRegex) u = Inr c" and "base c \<noteq> B"
    and "\<exists>n. infos s (shorten B (rnd n)) = None"
  shows "\<exists>v s1. add V B rnd u s = Some (Inr v, s1) \<and>
                 (\<forall>rnd'. add V B rnd' u s1 = Some (Inr v, s1))"
proof -
  from assms(1) have c: "consistent B s" by (rule reachable_consistent)
  from add_returns [OF c assms(2-4)] obtain v s1 where a: "add V B rnd u s = Some (Inr v, s1)"
    by blast
  from add_value [OF c a assms(2)] obtain d where
    "lookupInfo B s1 c = Some d" "isActive d" "v = scheme c @ ''://'' @ shortUrl d" by blast
  with add_active [OF assms(2,3), of s1 d] have "\<forall>rnd'. add V B rnd' u s1 = Some (Inr v, s1)"
    by simp
  with a show ?thesis by blast
qed

theorem add_idempotent_witness:
  "\<exists>v s1. add noSpace ''s.t'' (\<lambda>n. 7) ''http://a.b/c'' store0 = Some (Inr v, s1) \<and>
          (\<forall>rnd'. add noSpace ''s.t'' rnd' ''http://a.b/c'' s1 = Some (Inr v, s1))"
  using add_idempotent [of noSpace "''s.t''" store0 "''http://a.b/c''" _ "\<lambda>n. 7"]
    reachable.init [of noSpace "''s.t''"] split_abc
  by (simp add: store0_def)

text \<open>
  C2. Let \<open>u\<close> be \<open>sch://b r\<close> with \<open>sch\<close> http or https in any case, \<open>b\<close> an authority
  that \<open>isBaseError\<close> accepts and \<open>r\<close> empty or a path, query and fragment on one line, the
  base of \<open>u\<close> not that of the service. Then \<open>add u\<close> returns a value (one of its draws
  being free), and \<open>query\<close> of that value returns \<open>u\<close> with \<open>sch\<close> and \<open>b\<close> in lower case
  and \<open>r\<close> as it was.
\<close>

theorem round_trip:
  assumes "reachable V B s" and "validBase V B"
    and "httpsRegex sch" and "b \<noteq> []" and "CHR ''/'' \<notin> set b" and "V b = None"
    and "r = [] \<or> hd r = CHR ''/''" and "\<forall>c\<in>set r. \<not> isLineTerminator c"
    and "toLowerCase b \<noteq> B" and "\<exists>n. infos s (shorten B (rnd n)) = None"
  shows "\<exists>v s1 s2. add V B rnd (sch @ ''://'' @ b @ r) s = Some (Inr v, s1) \<and>
           query V B v s1 = (Inr (toLowerCase sch @ ''://'' @ toLowerCase b @ r), s2)"
proof -
  let ?u = "sch @ ''://'' @ b @ r"
  let ?c = "\<lparr>scheme = toLowerCase sch, base = toLowerCase b, rest = r\<rparr>"
  from assms(1) have c: "consistent B s" by (rule reachable_consistent)
  from httpsRegex_word [OF assms(3)] have w: "sch \<noteq> []" "\<forall>c\<in>set sch. isWordChar c"
    by simp_all
  from assms(8) have t: "takeWhile (\<lambda>c. \<not> isLineTerminator c) r = r" by simp
  have sp: "splitUrl V (Some httpsRegex) ?u = Inr ?c"
    using assms(3) t
    by (subst splitUrl_form [of sch b r V, OF w assms(4,5,7,6)]) simp
  from assms(9) have nb: "base ?c \<noteq> B" by simp
  from add_returns [OF c sp nb assms(10)] obtain v s1
    where a: "add V B rnd ?u s = Some (Inr v, s1)" by blast
  from components_round_trip [OF c assms(2) sp a] a show ?thesis by auto
qed

theorem round_trip_witness:
  "\<exists>v s1 s2. add noSpace ''s.t'' (\<lambda>n. 7) (''HTTP'' @ ''://'' @ ''A.b'' @ ''/C?d#e'') store0
               = Some (Inr v, s1) \<and>
             query noSpace ''s.t'' v s1 = (Inr (''http'' @ ''://'' @ ''a.b'' @ ''/C?d#e''), s2)"
proof -
  have h: "httpsRegex ''HTTP''" and l1: "toLowerCase ''HTTP'' = ''http''"
    and l2: "toLowerCase ''A.b'' = ''a.b''"
    by (simp_all add: evals)
  show ?thesis
    using round_trip [of noSpace "''s.t''" store0 "''HTTP''" "''A.b''" "''/C?d#e''" "\<lambda>n. 7"]
      reachable_store0 validBase_st h
    by (simp add: l1 l2 noSpace_def isLineTerminator_def store0_def)
qed

text \<open>
  C3, as the code has it. In the store, the long URL of a mapping is its base and rest,
  without the scheme. Let two calls of \<open>add\<close> on one service return values, with any calls
  of \<open>add\<close>, \<open>query\<close>, \<open>info\<close> and \<open>deactivate\<close> between them but no \<open>clear\<close>, for
  URLs whose long URLs differ. Then the short keys of the two values differ. In the store
  after the second call each of the two long URLs has its entry in the long index, no other
  long URL has an entry with either short key, and each short key is that of one mapping,
  which records its long URL. In that store, as in every store the service reaches, no
  two long URLs have the same short key in the long index, each entry of the index has
  its mapping, and each mapping is filed under its short key and indexed under its long
  URL.
\<close>

theorem short_keys_unique:
  assumes "reachable V B s"
    and "add V B rnd1 u1 s = Some (Inr v1, sa)"
    and "rtranclp (step V B) sa sb"
    and "add V B rnd2 u2 sb = Some (Inr v2, sc)"
    and "splitUrl V (Some httpsRegex) u1 = Inr c1"
    and "splitUrl V (Some httpsRegex) u2 = Inr c2"
    and "base c1 @ rest c1 \<noteq> base c2 @ rest c2"
  shows "(\<exists>k1 k2 d1 d2.
           v1 = scheme c1 @ ''://'' @ k1 \<and> v2 = scheme c2 @ ''://'' @ k2 \<and> k1 \<noteq> k2 \<and>
           urls sc (base c1 @ rest c1) = Some k1 \<and> urls sc (base c2 @ rest c2) = Some k2 \<and>
           (\<forall>l. urls sc l = Some k1 \<longleftrightarrow> l = base c1 @ rest c1) \<and>
           (\<forall>l. urls sc l = Some k2 \<longleftrightarrow> l = base c2 @ rest c2) \<and>
           infos sc k1 = Some d1 \<and> shortUrl d1 = k1 \<and> longUrl d1 = base c1 @ rest c1 \<and>
           infos sc k2 = Some d2 \<and> shortUrl d2 = k2 \<and> longUrl d2 = base c2 @ rest c2) \<and>
         ((\<forall>l1 l2 k. urls sc l1 = Some k \<and> urls sc l2 = Some k \<longrightarrow> l1 = l2) \<and>
          (\<forall>l k. urls sc l = Some k \<longrightarrow>
                 (\<exists>d. infos sc k = Some d \<and> shortUrl d = k \<and> longUrl d = l)) \<and>
          (\<forall>k d. infos sc k = Some d \<longrightarrow> shortUrl d = k \<and> urls sc (longUrl d) = Some k))"
proof -
  from assms(1) have c: "consistent B s" by (rule reachable_consistent)
  from assms(1,2) have ra: "reachable V B sa" by (blast intro: reachable.step step.add)
  from assms(3) ra have rb: "reachable V B sb" by (rule reachable_steps)
  then have cb: "consistent B sb" by (rule reachable_consistent)
  from rb assms(4) have rc: "reachable V B sc" by (blast intro: reachable.step step.add)
  then have cc: "consistent B sc" by (rule reachable_consistent)
  from add_indexed [OF c assms(2,5)] obtain k1 where v1: "v1 = scheme c1 @ ''://'' @ k1"
    and ua: "urls sa (base c1 @ rest c1) = Some k1" by blast
  from steps_urls_kept [OF assms(3) ua] have "urls sb (base c1 @ rest c1) = Some k1" .
  from add_urls_kept [OF assms(4) this] have u1: "urls sc (base c1 @ rest c1) = Some k1" .
  from add_indexed [OF cb assms(4,6)] obtain k2 d2 where v2: "v2 = scheme c2 @ ''://'' @ k2"
    and u2: "urls sc (base c2 @ rest c2) = Some k2"
    and i2: "infos sc k2 = Some d2" "shortUrl d2 = k2" "longUrl d2 = base c2 @ rest c2"
    by blast
  from consistent_urls [OF cc u1] obtain d1 where i1: "infos sc k1 = Some d1"
    "longUrl d1 = base c1 @ rest c1" by blast
  from consistent_infos [OF cc i1(1)] have s1: "shortUrl d1 = k1" by simp
  have ne: "k1 \<noteq> k2"
  proof
    assume "k1 = k2"
    with u2 have "urls sc (base c2 @ rest c2) = Some k1" by simp
    from consistent_one_long [OF cc u1 this] assms(7) show False by simp
  qed
  have o1: "\<forall>l. urls sc l = Some k1 \<longleftrightarrow> l = base c1 @ rest c1"
  proof (intro allI iffI)
    fix l assume "urls sc l = Some k1"
    from consistent_one_long [OF cc this u1] show "l = base c1 @ rest c1" .
  next
    fix l assume "l = base c1 @ rest c1"
    with u1 show "urls sc l = Some k1" by simp
  qed
  have o2: "\<forall>l. urls sc l = Some k2 \<longleftrightarrow> l = base c2 @ rest c2"
  proof (intro allI iffI)
    fix l assume "urls sc l = Some k2"
    from consistent_one_long [OF cc this u2] show "l = base c2 @ rest c2" .
  next
    fix l assume "l = base c2 @ rest c2"
    with u2 show "urls sc l = Some k2" by simp
  qed
  have two: "\<exists>k1 k2 d1 d2.
           v1 = scheme c1 @ ''://'' @ k1 \<and> v2 = scheme c2 @ ''://'' @ k2 \<and> k1 \<noteq> k2 \<and>
           urls sc (base c1 @ rest c1) = Some k1 \<and> urls sc (base c2 @ rest c2) = Some k2 \<and>
           (\<forall>l. urls sc l = Some k1 \<longleftrightarrow> l = base c1 @ rest c1) \<and>
           (\<forall>l. urls sc l = Some k2 \<longleftrightarrow> l = base c2 @ rest c2) \<and>
           infos sc k1 = Some d1 \<and> shortUrl d1 = k1 \<and> longUrl d1 = base c1 @ rest c1 \<and>
           infos sc k2 = Some d2 \<and> shortUrl d2 = k2 \<and> longUrl d2 = base c2 @ rest c2"
  proof (intro exI conjI)
    show "v1 = scheme c1 @ ''://'' @ k1" by (rule v1)
    show "v2 = scheme c2 @ ''://'' @ k2" by (rule v2)
    show "k1 \<noteq> k2" by (rule ne)
    show "urls sc (base c1 @ rest c1) = Some k1" by (rule u1)
    show "urls sc (base c2 @ rest c2) = Some k2" by (rule u2)
    show "\<forall>l. urls sc l = Some k1 \<longleftrightarrow> l = base c1 @ rest c1" by (rule o1)
    show "\<forall>l. urls sc l = Some k2 \<longleftrightarrow> l = base c2 @ rest c2" by (rule o2)
    show "infos sc k1 = Some d1" by (rule i1)
    show "shortUrl d1 = k1" by (rule s1)
    show "longUrl d1 = base c1 @ rest c1" by (rule i1)
    show "infos sc k2 = Some d2" by (rule i2)
    show "shortUrl d2 = k2" by (rule i2)
    show "longUrl d2 = base c2 @ rest c2" by (rule i2)
  qed
  from two reachable_one_to_one [OF rc] show ?thesis by (rule conjI)
qed

theorem short_keys_unique_witness:
  "\<exists>k1 k2. ''http://s.t/7'' = ''http'' @ ''://'' @ k1 \<and>
            ''https://s.t/8'' = ''https'' @ ''://'' @ k2 \<and> k1 \<noteq> k2"
proof -
  have ne: "base \<lparr>scheme = ''http'', base = ''a.b'', rest = ''/c''\<rparr>
              @ rest \<lparr>scheme = ''http'', base = ''a.b'', rest = ''/c''\<rparr>
            \<noteq> base \<lparr>scheme = ''https'', base = ''a.b'', rest = ''/d''\<rparr>
              @ rest \<lparr>scheme = ''https'', base = ''a.b'', rest = ''/d''\<rparr>"
    by simp
  from short_keys_unique [OF reachable_store0 add_abc rtranclp.rtrancl_refl add_abd
      split_abc split_abd ne]
  obtain k1 k2 where "''http://s.t/7''
        = scheme \<lparr>scheme = ''http'', base = ''a.b'', rest = ''/c''\<rparr> @ ''://'' @ k1"
    and "''https://s.t/8''
        = scheme \<lparr>scheme = ''https'', base = ''a.b'', rest = ''/d''\<rparr> @ ''://'' @ k2"
    and "k1 \<noteq> k2"
    by (elim exE conjE)
  then show ?thesis by (intro exI [of _ k1] exI [of _ k2]) simp
qed

text \<open>
  With \<open>clear\<close> between the two calls the short key can come again: \<open>clear\<close> empties
  \<open>infos\<close>, so the loop of \<open>add\<close> takes a key that was given out before when it is drawn
  again. Here \<open>http://a.b/c\<close> and then, after \<open>clear\<close>, \<open>http://x.y/z\<close> are added, both
  with the draw 7, and both get \<open>http://s.t/7\<close>.
\<close>

theorem short_keys_clear_counterexample:
  "add noSpace ''s.t'' draw7 ''http://a.b/c'' store0 = Some (Inr ''http://s.t/7'', store1) \<and>
   clear store1 = ((), store0) \<and>
   add noSpace ''s.t'' draw7 ''http://x.y/z'' store0 = Some (Inr ''http://s.t/7'', store3)"
  by (simp add: add_def clear_def evals)

text \<open>
  C4. Let \<open>deactivate u\<close> succeed, in a store the service has reached; \<open>u\<close> then has a
  mapping, which \<open>info u\<close> returned before the call. After the call \<open>info u\<close> still succeeds
  and returns that mapping, all fields as they were but \<open>isActive\<close> false, and \<open>query\<close> of its
  short URL, under http or https, fails with \<open>NOT_FOUND\<close> and changes nothing.
\<close>

theorem deactivation_hides:
  assumes "reachable V B s" and "validBase V B" and "deactivate V B u s = (Inr x, s1)"
  shows "\<exists>d. info V B u s = (Inr d, s) \<and>
             info V B u s1 = (Inr (d\<lparr>isActive := False\<rparr>), s1) \<and>
             (\<forall>sch. httpsRegex sch \<longrightarrow>
                query V B (sch @ ''://'' @ shortUrl d) s1
                = (Inl (NOT_FOUND, sch @ ''://'' @ shortUrl d @ '' not found''), s1))"
proof -
  from assms(1) have c: "consistent B s" by (rule reachable_consistent)
  from assms(3) have "step V B s s1" by (rule step.deactivate)
  with c have c1: "consistent B s1" by (blast intro: consistent_step)
  from deactivate_found [OF c assms(3)] obtain c' d
    where sp: "splitUrl V (Some httpsRegex) u = Inr c'" and l: "lookupInfo B s c' = Some d"
      and s1: "s1 = s\<lparr>infos := (infos s)(shortUrl d \<mapsto> d\<lparr>isActive := False\<rparr>)\<rparr>" by blast
  from l have a: "info V B u s = (Inr d, s)" by (simp add: info_found [OF sp])
  from lookupInfo_replaced [OF c l, of "d\<lparr>isActive := False\<rparr>"] s1
  have l1: "lookupInfo B s1 c' = Some (d\<lparr>isActive := False\<rparr>)" by simp
  then have b: "info V B u s1 = (Inr (d\<lparr>isActive := False\<rparr>), s1)"
    by (simp add: info_found [OF sp])
  from s1 have i1: "infos s1 (shortUrl d) = Some (d\<lparr>isActive := False\<rparr>)" by simp
  from consistent_infos [OF c1 i1] obtain r where k: "shortUrl d = shorten B r" by auto
  have q: "query V B (sch @ ''://'' @ shortUrl d) s1
           = (Inl (NOT_FOUND, sch @ ''://'' @ shortUrl d @ '' not found''), s1)"
    if "httpsRegex sch" for sch
  proof -
    have "queryFind V B (sch @ ''://'' @ shorten B r) s1
        = Inl (NOT_FOUND, sch @ ''://'' @ shorten B r @ '' not found'')"
      unfolding queryFind_short [OF assms(2) that] using i1 k by simp
    with k show ?thesis by (simp add: query_def)
  qed
  from a b q show ?thesis by blast
qed

theorem deactivation_hides_witness:
  "info noSpace ''s.t'' ''http://a.b/c'' store2
     = (Inr \<lparr>longUrl = ''a.b/c'', shortUrl = ''s.t/7'', count = 0, isActive = False\<rparr>, store2) \<and>
   query noSpace ''s.t'' ''http://s.t/7'' store2
     = (Inl (NOT_FOUND, ''http://s.t/7 not found''), store2)"
proof -
  have h: "httpsRegex ''http''" by (simp add: evals)
  have i: "info noSpace ''s.t'' ''http://a.b/c'' store1
     = (Inr \<lparr>longUrl = ''a.b/c'', shortUrl = ''s.t/7'', count = 0, isActive = True\<rparr>, store1)"
    by (simp add: info_def evals)
  from deactivation_hides [OF reachable_store1 validBase_st deactivate_abc]
  obtain d where "info noSpace ''s.t'' ''http://a.b/c'' store1 = (Inr d, store1)"
    and "info noSpace ''s.t'' ''http://a.b/c'' store2 = (Inr (d\<lparr>isActive := False\<rparr>), store2)"
    and "\<forall>sch. httpsRegex sch \<longrightarrow>
                query noSpace ''s.t'' (sch @ ''://'' @ shortUrl d) store2
                = (Inl (NOT_FOUND, sch @ ''://'' @ shortUrl d @ '' not found''), store2)"
    by (elim exE conjE)
  with i h show ?thesis by auto
qed

text \<open>
  C5. Let the mapping of \<open>u\<close>, as \<open>info u\<close> returns it, be deactivated. Then \<open>add u\<close>
  returns the short URL of that mapping and changes the store in one place: the mapping
  under that short key becomes the same mapping with \<open>isActive\<close> true, its \<open>shortUrl\<close>,
  \<open>longUrl\<close> and \<open>count\<close> as they were; and \<open>info u\<close> then returns it so.
\<close>

theorem reactivation:
  assumes "reachable V B s" and "splitUrl V (Some httpsRegex) u = Inr c" and "base c \<noteq> B"
    and "info V B u s = (Inr d, s)" and "\<not> isActive d"
  shows "infos s (shortUrl d) = Some d \<and>
         add V B rnd u s =
           Some (Inr (scheme c @ ''://'' @ shortUrl d),
                 s\<lparr>infos := (infos s)(shortUrl d \<mapsto> d\<lparr>isActive := True\<rparr>)\<rparr>) \<and>
         info V B u (s\<lparr>infos := (infos s)(shortUrl d \<mapsto> d\<lparr>isActive := True\<rparr>)\<rparr>) =
           (Inr (d\<lparr>isActive := True\<rparr>),
            s\<lparr>infos := (infos s)(shortUrl d \<mapsto> d\<lparr>isActive := True\<rparr>)\<rparr>)"
proof -
  from assms(1) have c: "consistent B s" by (rule reachable_consistent)
  from assms(4) have l: "lookupInfo B s c = Some d"
    by (auto simp: info_found [OF assms(2)] split: option.splits)
  from lookupInfo_short [OF c l] have i: "infos s (shortUrl d) = Some d" .
  from lookupInfo_replaced [OF c l, of "d\<lparr>isActive := True\<rparr>"]
  have "info V B u (s\<lparr>infos := (infos s)(shortUrl d \<mapsto> d\<lparr>isActive := True\<rparr>)\<rparr>) =
           (Inr (d\<lparr>isActive := True\<rparr>),
            s\<lparr>infos := (infos s)(shortUrl d \<mapsto> d\<lparr>isActive := True\<rparr>)\<rparr>)"
    by (simp add: info_found [OF assms(2)])
  with i add_inactive [OF c assms(2,3) l assms(5), of rnd] show ?thesis by simp
qed

theorem reactivation_witness:
  "add noSpace ''s.t'' (\<lambda>n. 9) ''http://a.b/c'' store2 = Some (Inr ''http://s.t/7'', store1)"
  using reactivation [of noSpace "''s.t''" store2 "''http://a.b/c''"
      "\<lparr>scheme = ''http'', base = ''a.b'', rest = ''/c''\<rparr>"
      "\<lparr>longUrl = ''a.b/c'', shortUrl = ''s.t/7'', count = 0, isActive = False\<rparr>" "\<lambda>n. 9"]
    reachable_store2 split_abc info_abc2
  by (simp add: store1_def store2_def)

text \<open>
  C6, as the code has it. Let \<open>query u\<close> succeed, in a store the service has reached. The
  mapping it resolves is the one that \<open>info u\<close> returns, \<open>d\<close>, filed under the base and
  rest of \<open>u\<close>; it is active and the value is its long URL under the scheme of \<open>u\<close>. The
  call changes the store in this place alone: the count of \<open>d\<close> becomes the count plus one,
  but no more than \<open>2^53\<close>, where a JavaScript number stays when one is added. And for
  every \<open>n\<close>, after \<open>n\<close> calls of \<open>query u\<close> one after the other the store is the first one
  with the count of \<open>d\<close> at the count before plus \<open>n\<close>, or at \<open>2^53\<close> if that is less,
  nothing else changed; \<open>info u\<close> returns the mapping with that count, and the next call
  succeeds with the same value. So the count is the count before plus \<open>n\<close> as long as this
  is at most \<open>2^53\<close>.
\<close>

theorem query_counts:
  assumes "reachable V B s" and "query V B u s = (Inr v, s1)"
  shows "\<exists>c d. splitUrl V (Some httpsRegex) u = Inr c \<and> info V B u s = (Inr d, s) \<and>
           shortUrl d = base c @ rest c \<and> infos s (shortUrl d) = Some d \<and> isActive d \<and>
           v = scheme c @ ''://'' @ longUrl d \<and> count d \<le> countLimit \<and>
           s1 = s\<lparr>infos := (infos s)(shortUrl d \<mapsto> d\<lparr>count := min (count d + 1) countLimit\<rparr>)\<rparr> \<and>
           (\<forall>n. queryTimes V B u n s
                  = s\<lparr>infos := (infos s)(shortUrl d \<mapsto>
                                    d\<lparr>count := min (count d + n) countLimit\<rparr>)\<rparr> \<and>
                info V B u (queryTimes V B u n s)
                  = (Inr (d\<lparr>count := min (count d + n) countLimit\<rparr>), queryTimes V B u n s) \<and>
                fst (query V B u (queryTimes V B u n s)) = Inr v)"
proof -
  from assms(1) have c: "consistent B s" by (rule reachable_consistent)
  from query_success [OF c assms(2)] obtain c' d
    where sp: "splitUrl V (Some httpsRegex) u = Inr c'" and b: "base c' = B"
      and i: "infos s (base c' @ rest c') = Some d" and act: "isActive d"
      and k: "shortUrl d = base c' @ rest c'" by blast
  let ?k = "base c' @ rest c'"
  let ?t = "\<lambda>n. s\<lparr>infos := (infos s)(?k \<mapsto> d\<lparr>count := min (count d + n) countLimit\<rparr>)\<rparr>"
  from consistent_count [OF c i] have le: "count d \<le> countLimit" .
  from b i have l: "lookupInfo B s c' = Some d" by (simp add: lookupInfo_def)
  then have inf: "info V B u s = (Inr d, s)" by (simp add: info_found [OF sp])
  from query_found [OF sp b i act k] assms(2) jsAddOne_min [OF le]
  have v: "v = scheme c' @ ''://'' @ longUrl d" and s1: "s1 = ?t 1" by simp_all
  have t: "queryTimes V B u n s = ?t n" for n
    by (rule queryTimes_found [OF sp b i act k le])
  have ti: "info V B u (?t n) = (Inr (d\<lparr>count := min (count d + n) countLimit\<rparr>), ?t n)" for n
    using b by (simp add: info_found [OF sp] lookupInfo_def)
  have q: "fst (query V B u (?t n)) = Inr v" for n
  proof -
    let ?d = "d\<lparr>count := min (count d + n) countLimit\<rparr>"
    have "query V B u (?t n)
          = (Inr (scheme c' @ ''://'' @ longUrl ?d),
             (?t n)\<lparr>infos := (infos (?t n))(?k \<mapsto> ?d\<lparr>count := jsAddOne (count ?d)\<rparr>)\<rparr>)"
      using act k by (intro query_found [OF sp b]) simp_all
    with v show ?thesis by simp
  qed
  show ?thesis
  proof (intro exI conjI allI)
    show "splitUrl V (Some httpsRegex) u = Inr c'" by (rule sp)
    show "info V B u s = (Inr d, s)" by (rule inf)
    show "shortUrl d = base c' @ rest c'" by (rule k)
    show "infos s (shortUrl d) = Some d" using i k by simp
    show "isActive d" by (rule act)
    show "v = scheme c' @ ''://'' @ longUrl d" by (rule v)
    show "count d \<le> countLimit" by (rule le)
    show "s1 = s\<lparr>infos := (infos s)(shortUrl d \<mapsto> d\<lparr>count := min (count d + 1) countLimit\<rparr>)\<rparr>"
      using s1 k by simp
    show "queryTimes V B u n s
          = s\<lparr>infos := (infos s)(shortUrl d \<mapsto> d\<lparr>count := min (count d + n) countLimit\<rparr>)\<rparr>"
      for n using t [of n] k by simp
    show "info V B u (queryTimes V B u n s)
          = (Inr (d\<lparr>count := min (count d + n) countLimit\<rparr>), queryTimes V B u n s)"
      for n using ti [of n] by (simp only: t)
    show "fst (query V B u (queryTimes V B u n s)) = Inr v" for n
      using q [of n] by (simp only: t)
  qed
qed

theorem query_counts_witness:
  "info noSpace ''s.t'' ''http://s.t/7'' (queryTimes noSpace ''s.t'' ''http://s.t/7'' 3 store1)
     = (Inr \<lparr>longUrl = ''a.b/c'', shortUrl = ''s.t/7'', count = 3, isActive = True\<rparr>,
        queryTimes noSpace ''s.t'' ''http://s.t/7'' 3 store1)"
proof -
  have i: "info noSpace ''s.t'' ''http://s.t/7'' store1
     = (Inr \<lparr>longUrl = ''a.b/c'', shortUrl = ''s.t/7'', count = 0, isActive = True\<rparr>, store1)"
    by (simp add: info_def evals)
  from query_counts [OF reachable_store1 query_st7] obtain d
    where a: "info noSpace ''s.t'' ''http://s.t/7'' store1 = (Inr d, store1)"
      and b: "\<forall>n. queryTimes noSpace ''s.t'' ''http://s.t/7'' n store1
                  = store1\<lparr>infos := (infos store1)(shortUrl d \<mapsto>
                                    d\<lparr>count := min (count d + n) countLimit\<rparr>)\<rparr> \<and>
                info noSpace ''s.t'' ''http://s.t/7'' (queryTimes noSpace ''s.t'' ''http://s.t/7'' n store1)
                  = (Inr (d\<lparr>count := min (count d + n) countLimit\<rparr>),
                     queryTimes noSpace ''s.t'' ''http://s.t/7'' n store1) \<and>
                fst (query noSpace ''s.t'' ''http://s.t/7''
                       (queryTimes noSpace ''s.t'' ''http://s.t/7'' n store1)) = Inr ''http://a.b/c''"
    by (elim exE conjE)
  from a i have d: "d = \<lparr>longUrl = ''a.b/c'', shortUrl = ''s.t/7'', count = 0, isActive = True\<rparr>"
    by simp
  from b have "info noSpace ''s.t'' ''http://s.t/7'' (queryTimes noSpace ''s.t'' ''http://s.t/7'' 3 store1)
       = (Inr (d\<lparr>count := min (count d + 3) countLimit\<rparr>),
          queryTimes noSpace ''s.t'' ''http://s.t/7'' 3 store1)"
    by blast
  then show ?thesis by (simp add: d countLimit_def)
qed

text \<open>
  At \<open>2^53\<close> the count does not rise. The store with the mapping of \<open>s.t/7\<close> at this count
  is the one the service is in after that many calls of \<open>query\<close>; one more succeeds and
  leaves the store as it is.
\<close>

theorem query_counts_counterexample:
  "reachable noSpace ''s.t'' storeMax \<and>
   infos storeMax ''s.t/7''
     = Some \<lparr>longUrl = ''a.b/c'', shortUrl = ''s.t/7'', count = 2 ^ 53, isActive = True\<rparr> \<and>
   query noSpace ''s.t'' ''http://s.t/7'' storeMax = (Inr ''http://a.b/c'', storeMax)"
proof -
  have "queryTimes noSpace ''s.t'' ''http://s.t/7'' countLimit store1 = storeMax"
    using queryTimes_found [OF split_st7, of "''s.t''" store1
        "\<lparr>longUrl = ''a.b/c'', shortUrl = ''s.t/7'', count = 0, isActive = True\<rparr>" countLimit]
    by (simp add: store1_def storeMax_def)
  with reachable_queryTimes [OF reachable_store1, of "''http://s.t/7''" countLimit]
  have r: "reachable noSpace ''s.t'' storeMax" by simp
  have i: "infos storeMax ''s.t/7''
     = Some \<lparr>longUrl = ''a.b/c'', shortUrl = ''s.t/7'', count = 2 ^ 53, isActive = True\<rparr>"
    by (simp add: storeMax_def countLimit_def)
  have q: "query noSpace ''s.t'' ''http://s.t/7'' storeMax = (Inr ''http://a.b/c'', storeMax)"
    using query_found [OF split_st7, of "''s.t''" storeMax
        "\<lparr>longUrl = ''a.b/c'', shortUrl = ''s.t/7'', count = countLimit, isActive = True\<rparr>"]
    by (simp add: storeMax_def jsAddOne_limit)
  from r i q show ?thesis by simp
qed

text \<open>
  C7, as the code has it. \<open>info\<close> gives \<open>splitUrl\<close> the same filter \<open>/^https?$/i\<close> as \<open>add\<close>
  and \<open>query\<close> do. For an input \<open>sch://b r\<close> with a scheme \<open>sch\<close> of word characters
  (letters, digits, underscore) and an authority \<open>b\<close> that \<open>isBaseError\<close> accepts: when \<open>sch\<close>
  is http or https, in any case, \<open>info\<close> does not fail with \<open>URL_SYNTAX\<close>; it returns the
  mapping found for the long or the short form, and fails with \<open>NOT_FOUND\<close> when there is
  none. For every other scheme of word characters it fails with \<open>URL_SYNTAX\<close>. (Of a
  scheme with other characters \<open>splitUrl\<close> reads the last run of word characters alone:
  \<open>info_git_https\<close>.)
\<close>

theorem info_scheme:
  assumes "sch \<noteq> []" and "\<forall>c\<in>set sch. isWordChar c" and "b \<noteq> []" and "CHR ''/'' \<notin> set b"
    and "r = [] \<or> hd r = CHR ''/''" and "V b = None"
  shows "info V B (sch @ ''://'' @ b @ r) s =
         (if httpsRegex sch
          then (case lookupInfo B s \<lparr>scheme = toLowerCase sch, base = toLowerCase b,
                                     rest = takeWhile (\<lambda>c. \<not> isLineTerminator c) r\<rparr> of
                  None \<Rightarrow> (Inl (NOT_FOUND, (sch @ ''://'' @ b @ r) @ '' not found''), s)
                | Some d \<Rightarrow> (Inr d, s))
          else (Inl (URL_SYNTAX, ''invalid scheme '' @ [CHR 0x22] @ sch @ [CHR 0x22]), s))"
  unfolding info_def splitUrl_form [of sch b r V "Some httpsRegex", OF assms] by simp

theorem info_scheme_witness:
  "info noSpace ''s.t'' (''HTTP'' @ ''://'' @ ''a.b'' @ ''/c'') store1 =
     (Inr \<lparr>longUrl = ''a.b/c'', shortUrl = ''s.t/7'', count = 0, isActive = True\<rparr>, store1)"
proof -
  have h: "httpsRegex ''HTTP''" and l1: "toLowerCase ''HTTP'' = ''http''"
    and l2: "toLowerCase ''a.b'' = ''a.b''"
    by (simp_all add: evals)
  have w: "\<forall>c\<in>set ''HTTP''. isWordChar c" by (simp add: isWordChar_def)
  have v: "noSpace ''a.b'' = None" by (simp add: noSpace_def)
  show ?thesis
    using info_scheme [of "''HTTP''" "''a.b''" "''/c''" noSpace "''s.t''" store1] h w v
    by (simp add: l1 l2 isLineTerminator_def lookupInfo_def store1_def)
qed

theorem info_scheme_counterexample:
  "noSpace ''a.b'' = None \<and>
   info noSpace ''s.t'' ''http://a.b/c'' store1 =
     (Inr \<lparr>longUrl = ''a.b/c'', shortUrl = ''s.t/7'', count = 0, isActive = True\<rparr>, store1) \<and>
   info noSpace ''s.t'' ''ftp://a.b/c'' store1 =
     (Inl (URL_SYNTAX, ''invalid scheme '' @ [CHR 0x22] @ ''ftp'' @ [CHR 0x22]), store1)"
  by (simp add: info_def evals)

text \<open>
  C8. The comment of \<open>make\<close> asks of the store URL that it be a valid URL with the scheme
  mongodb, and names \<open>BAD_MONGO_URL\<close> for one that is not. \<open>make\<close> tests it with
  \<open>splitUrl\<close>, whose regular expression is not anchored, so a string that only contains a
  mongodb URL passes. On \<open>not a url; see mongodb://h/db\<close>, with a base that is accepted,
  \<open>make\<close> does not fail with \<open>BAD_MONGO_URL\<close>: it goes on to connect with the whole string,
  and returns the handle when the connection succeeds and the error of the driver when it
  fails. The text before the URL alone is refused with \<open>BAD_MONGO_URL\<close>.
\<close>

theorem make_unanchored:
  "make noSpace connectOk ''not a url; see mongodb://h/db'' ''e.f:80''
     = Inr \<lparr>hbase = ''e.f:80'', client = 5, db = ''db''\<rparr> \<and>
   make noSpace connectFails ''not a url; see mongodb://h/db'' ''e.f:80''
     = Inl (MONGO_ERROR, ''Invalid connection string'') \<and>
   make noSpace connectOk ''not a url; see'' ''e.f:80''
     = Inl (BAD_MONGO_URL, ''bad URL not a url; see'')"
  by (simp add: make_def connectOk_def connectFails_def evals)

text \<open>
  C9. \<open>query\<close> reads the mapping and then writes the count it read plus one, in two
  accesses to the store. On the store with the mapping of \<open>s.t/7\<close> at count 0, let two
  calls both read before either writes: both succeed, with the same mapping at count 0,
  and after both writes the count is 1. Two calls one after the other leave 2.
\<close>

theorem query_lost_update:
  "queryFind noSpace ''s.t'' ''http://s.t/7'' store1 =
     Inr (\<lparr>scheme = ''http'', base = ''s.t'', rest = ''/7''\<rparr>,
          \<lparr>longUrl = ''a.b/c'', shortUrl = ''s.t/7'', count = 0, isActive = True\<rparr>) \<and>
   infos (snd (queryUpdate \<lparr>scheme = ''http'', base = ''s.t'', rest = ''/7''\<rparr>
                 \<lparr>longUrl = ''a.b/c'', shortUrl = ''s.t/7'', count = 0, isActive = True\<rparr>
            (snd (queryUpdate \<lparr>scheme = ''http'', base = ''s.t'', rest = ''/7''\<rparr>
                 \<lparr>longUrl = ''a.b/c'', shortUrl = ''s.t/7'', count = 0, isActive = True\<rparr>
                 store1)))) ''s.t/7''
     = Some \<lparr>longUrl = ''a.b/c'', shortUrl = ''s.t/7'', count = 1, isActive = True\<rparr> \<and>
   infos (queryTimes noSpace ''s.t'' ''http://s.t/7'' 2 store1) ''s.t/7''
     = Some \<lparr>longUrl = ''a.b/c'', shortUrl = ''s.t/7'', count = 2, isActive = True\<rparr>"
  by (simp add: queryTimes_twice query_def queryFind_def queryUpdate_def evals)

text \<open>
  C10. Let \<open>b\<close> be an authority that \<open>isBaseError\<close> accepts, other than the base of the
  service, and \<open>p\<close> empty or a path, and let \<open>s1\<close> and \<open>s2\<close> each be http or https. Then
  \<open>add\<close> of \<open>s1://b p\<close> returns \<open>s1://k\<close> for a short key \<open>k\<close>, and \<open>add\<close> of \<open>s2://b p\<close>
  after it returns \<open>s2://k\<close> for the same \<open>k\<close> and changes nothing: both calls resolve to
  the one mapping filed under \<open>k\<close>, which the long index reaches from the key made of the
  base in lower case and the rest, with no scheme.
\<close>

theorem scheme_independent:
  assumes "reachable V B s"
    and "s1 = ''http'' \<or> s1 = ''https''" and "s2 = ''http'' \<or> s2 = ''https''"
    and "b \<noteq> []" and "CHR ''/'' \<notin> set b" and "V b = None"
    and "p = [] \<or> hd p = CHR ''/''"
    and "toLowerCase b \<noteq> B" and "\<exists>n. infos s (shorten B (rnd n)) = None"
  shows "\<exists>k d st. add V B rnd (s1 @ ''://'' @ b @ p) s = Some (Inr (s1 @ ''://'' @ k), st) \<and>
           (\<forall>rnd'. add V B rnd' (s2 @ ''://'' @ b @ p) st = Some (Inr (s2 @ ''://'' @ k), st)) \<and>
           urls st (toLowerCase b @ takeWhile (\<lambda>c. \<not> isLineTerminator c) p) = Some k \<and>
           infos st k = Some d \<and> shortUrl d = k \<and>
           longUrl d = toLowerCase b @ takeWhile (\<lambda>c. \<not> isLineTerminator c) p"
proof -
  let ?r = "takeWhile (\<lambda>c. \<not> isLineTerminator c) p"
  let ?c1 = "\<lparr>scheme = s1, base = toLowerCase b, rest = ?r\<rparr>"
  let ?c2 = "\<lparr>scheme = s2, base = toLowerCase b, rest = ?r\<rparr>"
  from assms(1) have c: "consistent B s" by (rule reachable_consistent)
  have h: "httpsRegex x \<and> toLowerCase x = x \<and> x \<noteq> [] \<and> (\<forall>c\<in>set x. isWordChar c)"
    if "x = ''http'' \<or> x = ''https''" for x
    using that by (auto simp: httpsRegex_def toLowerCase_def toLowerChar_def isWordChar_def)
  have sp1: "splitUrl V (Some httpsRegex) (s1 @ ''://'' @ b @ p) = Inr ?c1"
    using h [OF assms(2)]
    by (subst splitUrl_form [of s1 b p V, OF _ _ assms(4,5,7,6)]) simp_all
  have sp2: "splitUrl V (Some httpsRegex) (s2 @ ''://'' @ b @ p) = Inr ?c2"
    using h [OF assms(3)]
    by (subst splitUrl_form [of s2 b p V, OF _ _ assms(4,5,7,6)]) simp_all
  from assms(8) have nb1: "base ?c1 \<noteq> B" and nb2: "base ?c2 \<noteq> B" by simp_all
  from add_returns [OF c sp1 nb1 assms(9)] obtain v st
    where a: "add V B rnd (s1 @ ''://'' @ b @ p) s = Some (Inr v, st)" by blast
  from add_value [OF c a sp1] obtain d where c1: "consistent B st"
    and l1: "lookupInfo B st ?c1 = Some d" and act: "isActive d"
    and lu: "longUrl d = toLowerCase b @ ?r" and v: "v = s1 @ ''://'' @ shortUrl d"
    by auto
  from l1 have l2: "lookupInfo B st ?c2 = Some d" by (simp add: lookupInfo_def)
  from lookupInfo_key [OF c1 l1] lu have i: "infos st (shortUrl d) = Some d"
    and u: "urls st (toLowerCase b @ ?r) = Some (shortUrl d)" by simp_all
  from add_active [OF sp2 nb2 l2 act]
  have "\<forall>rnd'. add V B rnd' (s2 @ ''://'' @ b @ p) st = Some (Inr (s2 @ ''://'' @ shortUrl d), st)"
    by simp
  with a v i u lu show ?thesis by blast
qed

theorem scheme_independent_witness:
  "\<exists>k d st. add noSpace ''s.t'' (\<lambda>n. 7) (''http'' @ ''://'' @ ''a.b'' @ ''/c'') store0
               = Some (Inr (''http'' @ ''://'' @ k), st) \<and>
     (\<forall>rnd'. add noSpace ''s.t'' rnd' (''https'' @ ''://'' @ ''a.b'' @ ''/c'') st
               = Some (Inr (''https'' @ ''://'' @ k), st)) \<and>
     urls st (toLowerCase ''a.b'' @ takeWhile (\<lambda>c. \<not> isLineTerminator c) ''/c'') = Some k \<and>
     infos st k = Some d \<and> shortUrl d = k \<and>
     longUrl d = toLowerCase ''a.b'' @ takeWhile (\<lambda>c. \<not> isLineTerminator c) ''/c''"
  using scheme_independent [of noSpace "''s.t''" store0 "''http''" "''https''" "''a.b''" "''/c''"
      "\<lambda>n. 7"] reachable_store0
  by (simp add: evals)

end
